theory Spec2Isabelle
  imports Complex_Main "HOL-Library.Multiset" "HOL-Library.Sublist"
begin

section \<open>Pseudo-label refinement of \<^verbatim>\<open>Net/predutils.py\<close>\<close>

text \<open>
  The development embeds the four functions of \<^verbatim>\<open>src/Net/predutils.py\<close> that build
  and refine pseudo labels: \<^verbatim>\<open>spatial_correction\<close>, \<^verbatim>\<open>pseudo_labels\<close>,
  \<^verbatim>\<open>labels_by_percentage\<close> and \<^verbatim>\<open>labels_by_neighborhood\<close>.

  Conventions of the embedding:
  \<^item> A Python float (a distance, the threshold, the percentage) is the real number it
    holds. Comparisons of floats are exact. The one arithmetic operation on floats in
    these functions, the product \<^verbatim>\<open>percentage*len(m)\<close>, is rounded to the nearest double
    (\<open>round_double\<close>).
  \<^item> A 2-dim numpy array is a record of its shape and its row-major cells.
  \<^item> An exception is a value \<open>Inl e\<close> of the result type.
  \<^item> \<^verbatim>\<open>numpy.argsort\<close> is called with its default kind, which does not fix the order of
    equal keys. It is a parameter of \<open>labels_by_percentage\<close>; its contract is \<open>is_argsort\<close>.
\<close>

subsection \<open>Data\<close>

text \<open>
  Modelled from the spec: \<^verbatim>\<open>config.py\<close> is not among the sources, so the constants
  \<^verbatim>\<open>config.CHANGED_LABEL\<close>, \<^verbatim>\<open>config.UNCHANGED_LABEL\<close> and \<^verbatim>\<open>config.UNKNOWN_LABEL\<close>
  are the three categorical values the spec gives for a label map.
\<close>

datatype label = CHANGED | UNCHANGED | UNKNOWN

text \<open>
  The exceptions the modelled code can raise. \<open>ValueError\<close> carries the message of the
  two \<^verbatim>\<open>raise ValueError(...)\<close> statements; \<open>ReshapeError n shp\<close> is the \<^verbatim>\<open>ValueError\<close>
  numpy raises when an array of \<open>n\<close> elements is reshaped to \<open>shp\<close> (its message is
  numpy's own: "cannot reshape array of size n into shape shp").
\<close>

datatype error = ValueError string | ReshapeError nat "nat \<times> nat" | IndexError

record 'a array2 =
  nrows :: nat
  ncols :: nat
  cells :: "'a list"

text \<open>The dictionary dumped by the script: keys \<^verbatim>\<open>distances\<close>, \<^verbatim>\<open>threshold\<close>, \<^verbatim>\<open>shape\<close>.\<close>

record pseudo_dict =
  distances :: "real list"
  threshold :: real
  shape :: "nat \<times> nat"

definition well_shaped :: "'a array2 \<Rightarrow> bool" where
  "well_shaped a \<longleftrightarrow> length (cells a) = nrows a * ncols a"

definition cell :: "'a array2 \<Rightarrow> nat \<Rightarrow> nat \<Rightarrow> 'a" where
  "cell a row col = cells a ! (row * ncols a + col)"

subsection \<open>numpy and collections primitives\<close>

text \<open>
  A bound of a Python slice \<^verbatim>\<open>a[lo:hi]\<close> over an axis of length \<open>n\<close>: a negative bound
  counts from the end, and every bound is clipped to \<open>[0, n]\<close>.
\<close>

definition slice_index :: "int \<Rightarrow> nat \<Rightarrow> nat" where
  "slice_index i n = (if i < 0 then nat (max 0 (i + int n)) else min (nat i) n)"

text \<open>\<^verbatim>\<open>a[lo_x:hi_x, lo_y:hi_y].ravel()\<close>: the cells of the sub-array, row by row.\<close>

definition slice2_ravel :: "'a array2 \<Rightarrow> int \<Rightarrow> int \<Rightarrow> int \<Rightarrow> int \<Rightarrow> 'a list" where
  "slice2_ravel a lo_x hi_x lo_y hi_y =
     concat (map (\<lambda>r. map (\<lambda>c. cell a r c)
                          [slice_index lo_y (ncols a) ..< slice_index hi_y (ncols a)])
                 [slice_index lo_x (nrows a) ..< slice_index hi_x (nrows a)])"

text \<open>
  \<^verbatim>\<open>collections.Counter\<close>: a dictionary from element to count that keeps the order in
  which the elements were first seen.
\<close>

fun counter_add :: "'a \<Rightarrow> ('a \<times> nat) list \<Rightarrow> ('a \<times> nat) list" where
  "counter_add x [] = [(x, 1)]"
| "counter_add x ((k, n) # kvs) =
     (if k = x then (k, Suc n) # kvs else (k, n) # counter_add x kvs)"

definition Counter :: "'a list \<Rightarrow> ('a \<times> nat) list" where
  "Counter xs = foldl (\<lambda>counter x. counter_add x counter) [] xs"

text \<open>
  \<^verbatim>\<open>Counter.most_common()\<close> is \<^verbatim>\<open>sorted(items, key=count, reverse=True)\<close>: a stable sort
  by decreasing count, so equal counts stay in first-seen order.
\<close>

definition most_common :: "('a \<times> nat) list \<Rightarrow> ('a \<times> nat) list" where
  "most_common counter = sort_key (\<lambda>kv. - int (snd kv)) counter"

text \<open>\<^verbatim>\<open>np.where(distances > threshold, CHANGED_LABEL, UNCHANGED_LABEL)\<close>.\<close>

definition where_greater :: "real list \<Rightarrow> real \<Rightarrow> label list" where
  "where_greater ds t = map (\<lambda>d. if d > t then CHANGED else UNCHANGED) ds"

text \<open>\<^verbatim>\<open>np.where(cond)[0]\<close> on a 1-dim array: the positions where the condition holds.\<close>

definition where_index :: "('a \<Rightarrow> bool) \<Rightarrow> 'a list \<Rightarrow> nat list" where
  "where_index cond xs = filter (\<lambda>i. cond (xs ! i)) [0..<length xs]"

text \<open>\<^verbatim>\<open>np.reshape(xs, shp)\<close> of a flat array to two dimensions.\<close>

definition reshape :: "'a list \<Rightarrow> nat \<times> nat \<Rightarrow> error + 'a array2" where
  "reshape xs shp =
     (if length xs = fst shp * snd shp
      then Inr \<lparr>nrows = fst shp, ncols = snd shp, cells = xs\<rparr>
      else Inl (ReshapeError (length xs) shp))"

text \<open>\<^verbatim>\<open>m[perm]\<close>: the rows of \<open>m\<close> in the order of the index array \<open>perm\<close>.\<close>

definition take_rows :: "'a list \<Rightarrow> nat list \<Rightarrow> error + 'a list" where
  "take_rows m perm =
     (if \<forall>i \<in> set perm. i < length m then Inr (map (\<lambda>i. m ! i) perm) else Inl IndexError)"

text \<open>
  The product of two floats is the exact product rounded to the nearest double, ties to
  even. A double has a significand of 53 bits: for \<open>2\<^sup>5\<^sup>2 \<le> |x| \<cdot> 2\<^sup>k < 2\<^sup>5\<^sup>3\<close> the doubles
  around \<open>x\<close> are the multiples of \<open>2\<^sup>-\<^sup>k\<close>, and \<open>k\<close> stops at 1074 (subnormal numbers).
  \<open>quantum_exp\<close> searches this \<open>k\<close> from 0 upwards, so the grid is never coarser than the
  integers: the rounding is that of the hardware for \<open>|x| \<le> 2\<^sup>5\<^sup>3\<close>. The products rounded
  here are at most the length of an array, which is below that bound (as is the length
  itself, whose conversion to a float is therefore exact).
\<close>

fun quantum_exp :: "nat \<Rightarrow> nat \<Rightarrow> real \<Rightarrow> nat" where
  "quantum_exp 0 k x = k"
| "quantum_exp (Suc fuel) k x =
     (if 2 ^ 52 \<le> x * 2 ^ k then k else quantum_exp fuel (Suc k) x)"

definition round_half_even :: "real \<Rightarrow> int" where
  "round_half_even y =
     (let f = \<lfloor>y\<rfloor>
      in if y - of_int f < 1 / 2 then f
         else if y - of_int f > 1 / 2 then f + 1
         else if even f then f else f + 1)"

definition round_double :: "real \<Rightarrow> real" where
  "round_double x =
     (let k = quantum_exp 1074 0 \<bar>x\<bar>
      in of_int (round_half_even (x * 2 ^ k)) / 2 ^ k)"

text \<open>Python's \<^verbatim>\<open>int(x)\<close> on a float truncates towards zero.\<close>

definition py_int :: "real \<Rightarrow> int" where
  "py_int x = (if 0 \<le> x then \<lfloor>x\<rfloor> else \<lceil>x\<rceil>)"

text \<open>
  The contract of \<^verbatim>\<open>numpy.argsort\<close>: the result is a permutation of the positions of
  the keys that lists the keys in ascending order.
\<close>

definition is_argsort :: "(real list \<Rightarrow> nat list) \<Rightarrow> bool" where
  "is_argsort argsort \<longleftrightarrow>
     (\<forall>keys. mset (argsort keys) = mset [0..<length keys] \<and>
             sorted (map (\<lambda>i. keys ! i) (argsort keys)))"

text \<open>One function that meets the contract: the stable argsort.\<close>

definition stable_argsort :: "real list \<Rightarrow> nat list" where
  "stable_argsort keys = map snd (sort_key fst (zip keys [0..<length keys]))"

subsection \<open>\<^verbatim>\<open>spatial_correction\<close>\<close>

text \<open>
  The cells of the kernel around \<open>(row, col)\<close>, lines 44 to 50 of the source (the same
  lines are repeated in \<^verbatim>\<open>labels_by_neighborhood\<close>, lines 195 to 201).
\<close>

definition kernel_cells :: "'a array2 \<Rightarrow> int \<Rightarrow> nat \<Rightarrow> nat \<Rightarrow> 'a list" where
  "kernel_cells prediction radius row col =
     (let max_r = nrows prediction;
          max_c = ncols prediction;
          upper_x = max 0 (int row - (radius - 1));
          upper_y = max 0 (int col - (radius - 1));
          lower_x = min (int max_r) (int row + radius);
          lower_y = min (int max_c) (int col + radius)
      in slice2_ravel prediction upper_x lower_x upper_y lower_y)"

text \<open>The body of the inner loop; \<^verbatim>\<open>counts[0]\<close> raises on an empty list.\<close>

definition corrected_cell :: "'a array2 \<Rightarrow> int \<Rightarrow> nat \<Rightarrow> nat \<Rightarrow> error + 'a" where
  "corrected_cell prediction radius row col =
     (let counts = most_common (Counter (kernel_cells prediction radius row col))
      in if length counts > 1 \<and> snd (counts ! 0) = snd (counts ! 1)
         then Inr (cell prediction row col)
         else (case counts of [] \<Rightarrow> Inl IndexError | kv # _ \<Rightarrow> Inr (fst kv)))"

text \<open>
  The two loops. \<^verbatim>\<open>corrected\<close> starts as \<^verbatim>\<open>np.zeros(prediction.shape)\<close> and the loops
  assign each cell once, in row-major order; the state of the model is the list of the
  cells assigned so far. (The array is a float array, so an integer label \<open>k\<close> is stored
  as the float \<open>k\<close>, which Python compares and hashes as equal to \<open>k\<close>.)
\<close>

fun correct_cols :: "'a array2 \<Rightarrow> int \<Rightarrow> nat \<Rightarrow> nat list \<Rightarrow> 'a list \<Rightarrow> error + 'a list" where
  "correct_cols prediction radius row [] corrected = Inr corrected"
| "correct_cols prediction radius row (col # cols) corrected =
     (case corrected_cell prediction radius row col of
        Inl e \<Rightarrow> Inl e
      | Inr v \<Rightarrow> correct_cols prediction radius row cols (corrected @ [v]))"

fun correct_rows :: "'a array2 \<Rightarrow> int \<Rightarrow> nat list \<Rightarrow> 'a list \<Rightarrow> error + 'a list" where
  "correct_rows prediction radius [] corrected = Inr corrected"
| "correct_rows prediction radius (row # rows) corrected =
     (case correct_cols prediction radius row [0..<ncols prediction] corrected of
        Inl e \<Rightarrow> Inl e
      | Inr corrected' \<Rightarrow> correct_rows prediction radius rows corrected')"

definition spatial_correction :: "'a array2 \<Rightarrow> int \<Rightarrow> error + 'a array2" where
  "spatial_correction prediction radius =
     (case correct_rows prediction radius [0..<nrows prediction] [] of
        Inl e \<Rightarrow> Inl e
      | Inr corrected \<Rightarrow>
          Inr \<lparr>nrows = nrows prediction, ncols = ncols prediction, cells = corrected\<rparr>)"

subsection \<open>\<^verbatim>\<open>pseudo_labels\<close>\<close>

text \<open>
  The distance function (the source's parameter \<^verbatim>\<open>dist_function\<close>) and Otsu's
  threshold (skimage's \<^verbatim>\<open>threshold_otsu\<close>) are parameters. The returned map is the
  distances or the labels, by the flag \<^verbatim>\<open>return_distances\<close>.
\<close>

datatype returned_map = Distance_map "real list" | Label_map "label list"

definition pseudo_labels ::
  "(real list \<Rightarrow> real) \<Rightarrow> 'img \<Rightarrow> 'img \<Rightarrow> ('img \<times> 'img \<Rightarrow> real list) \<Rightarrow> bool
     \<Rightarrow> returned_map \<times> real" where
  "pseudo_labels threshold_otsu first_img second_img dist_function return_distances =
     (let dists = dist_function (first_img, second_img);
          thresh = threshold_otsu dists;
          returned = (if return_distances then Distance_map dists
                      else Label_map (where_greater dists thresh))
      in (returned, thresh))"

subsection \<open>\<^verbatim>\<open>labels_by_percentage\<close>\<close>

text \<open>
  \<^verbatim>\<open>np.c_[pseudo_distances[N], N[0]]\<close> is the list of rows (distance, position). The
  source stores the position as a float and converts it back with \<^verbatim>\<open>astype(int)\<close>; the
  model keeps the position. \<^verbatim>\<open>(-cmatrix)[:, 0]\<close> is the column of negated distances.
\<close>

definition labels_by_percentage ::
  "(real list \<Rightarrow> nat list) \<Rightarrow> pseudo_dict \<Rightarrow> real \<Rightarrow> error + (nat list \<times> label list)" where
  "labels_by_percentage argsort pseudo percentage =
     (if percentage \<le> 0 \<or> percentage > 1
      then Inl (ValueError ''ERROR: percentage must be a float in ]0,1]'')
      else
        let pseudo_distances = distances pseudo;
            thresh = threshold pseudo;
            N = where_index (\<lambda>d. d \<le> thresh) pseudo_distances;
            C = where_index (\<lambda>d. d > thresh) pseudo_distances;
            nmatrix = zip (map (\<lambda>i. pseudo_distances ! i) N) N;
            cmatrix = zip (map (\<lambda>i. pseudo_distances ! i) C) C
        in case take_rows nmatrix (argsort (map fst nmatrix)) of
             Inl e \<Rightarrow> Inl e
           | Inr nmatrix \<Rightarrow>
        (case take_rows cmatrix (argsort (map (\<lambda>row. - fst row) cmatrix)) of
             Inl e \<Rightarrow> Inl e
           | Inr cmatrix \<Rightarrow>
             let n_sel = py_int (round_double (percentage * real (length nmatrix)));
                 c_sel = py_int (round_double (percentage * real (length cmatrix)));
                 labels = replicate (nat n_sel) UNCHANGED @ replicate (nat c_sel) CHANGED;
                 selected_data =
                   map snd (take (slice_index n_sel (length nmatrix)) nmatrix) @
                   map snd (take (slice_index c_sel (length cmatrix)) cmatrix)
             in Inr (selected_data, labels)))"

subsection \<open>\<^verbatim>\<open>labels_by_neighborhood\<close>\<close>

text \<open>
  The two loops of lines 193 to 205, with the pair of lists \<^verbatim>\<open>selected_data\<close>,
  \<^verbatim>\<open>label_list\<close> as state.
\<close>

fun select_cols ::
  "'a array2 \<Rightarrow> int \<Rightarrow> nat \<Rightarrow> nat list \<Rightarrow> nat list \<times> 'a list \<Rightarrow> nat list \<times> 'a list" where
  "select_cols pseudo_lab radius row [] (selected_data, label_list) =
     (selected_data, label_list)"
| "select_cols pseudo_lab radius row (col # cols) (selected_data, label_list) =
     (let counts = most_common (Counter (kernel_cells pseudo_lab radius row col))
      in if length counts = 1
         then select_cols pseudo_lab radius row cols
                (selected_data @ [row * ncols pseudo_lab + col],
                 label_list @ [cell pseudo_lab row col])
         else select_cols pseudo_lab radius row cols (selected_data, label_list))"

fun select_rows ::
  "'a array2 \<Rightarrow> int \<Rightarrow> nat list \<Rightarrow> nat list \<times> 'a list \<Rightarrow> nat list \<times> 'a list" where
  "select_rows pseudo_lab radius [] acc = acc"
| "select_rows pseudo_lab radius (row # rows) acc =
     select_rows pseudo_lab radius rows
       (select_cols pseudo_lab radius row [0..<ncols pseudo_lab] acc)"

text \<open>
  Line 188 calls \<^verbatim>\<open>spatial_correction\<close> without a radius, so the correction runs with
  the default radius 3 of that function; \<open>radius\<close> is used by the selection loops only.
\<close>

definition labels_by_neighborhood :: "pseudo_dict \<Rightarrow> int \<Rightarrow> error + (nat list \<times> label list)" where
  "labels_by_neighborhood pseudo radius =
     (if radius < 1 then Inl (ValueError ''ERROR: radius must be a int >=1'')
      else
        case reshape (distances pseudo) (shape pseudo) of
          Inl e \<Rightarrow> Inl e
        | Inr dist2 \<Rightarrow>
        (case reshape (where_greater (cells dist2) (threshold pseudo)) (shape pseudo) of
          Inl e \<Rightarrow> Inl e
        | Inr pseudo_lab \<Rightarrow>
        (case spatial_correction pseudo_lab 3 of
          Inl e \<Rightarrow> Inl e
        | Inr pseudo_lab \<Rightarrow>
            Inr (select_rows pseudo_lab radius [0..<nrows pseudo_lab] ([], [])))))"

subsection \<open>Notions used to state the properties\<close>

text \<open>The count a \<^verbatim>\<open>Counter\<close> holds for a key (0 for a key it does not hold).\<close>

definition count_in :: "('a \<times> nat) list \<Rightarrow> 'a \<Rightarrow> nat" where
  "count_in counter k = (case map_of counter k of None \<Rightarrow> 0 | Some n \<Rightarrow> n)"

text \<open>
  The window of a pixel as the spec words it: rows \<open>[max(0, r-radius+1), min(H, r+radius))\<close>
  and columns likewise, clipped at the borders; the labels found there, with their
  frequencies, form a multiset.
\<close>

definition window_positions :: "nat \<times> nat \<Rightarrow> int \<Rightarrow> nat \<Rightarrow> nat \<Rightarrow> (nat \<times> nat) list" where
  "window_positions shp radius r c =
     List.product
       [nat (max 0 (int r - radius + 1)) ..< nat (min (int (fst shp)) (int r + radius))]
       [nat (max 0 (int c - radius + 1)) ..< nat (min (int (snd shp)) (int c + radius))]"

definition window_labels :: "'a array2 \<Rightarrow> int \<Rightarrow> nat \<Rightarrow> nat \<Rightarrow> 'a list" where
  "window_labels g radius r c =
     map (\<lambda>(r', c'). cell g r' c') (window_positions (nrows g, ncols g) radius r c)"

definition clipped_window :: "'a array2 \<Rightarrow> int \<Rightarrow> nat \<Rightarrow> nat \<Rightarrow> 'a multiset" where
  "clipped_window g radius r c = mset (window_labels g radius r c)"

text \<open>
  \<open>selectByNeighborhood\<close> as the spec words it, with the radius of the correction as a
  parameter of its own: build the label map from the distances and the stored threshold,
  give it the shape of the record, smooth it with the corrector, and select, in row-major
  order, the pixels whose clipped window in the smoothed map holds exactly one distinct
  label, each with its smoothed label.
\<close>

definition select_by_neighborhood_spec ::
  "int \<Rightarrow> pseudo_dict \<Rightarrow> int \<Rightarrow> error + (nat list \<times> label list)" where
  "select_by_neighborhood_spec correction_radius pseudo radius =
     (case reshape (where_greater (distances pseudo) (threshold pseudo)) (shape pseudo) of
        Inl e \<Rightarrow> Inl e
      | Inr label_map \<Rightarrow>
     (case spatial_correction label_map correction_radius of
        Inl e \<Rightarrow> Inl e
      | Inr smoothed \<Rightarrow>
          let w = ncols smoothed;
              selected =
                filter (\<lambda>i. card (set (window_labels smoothed radius (i div w) (i mod w))) = 1)
                       [0..<nrows smoothed * w]
          in Inr (selected, map (\<lambda>i. cell smoothed (i div w) (i mod w)) selected)))"

text \<open>The test of line 203 of the source: the sorted counts of the kernel have one entry.\<close>

definition unanimous :: "'a array2 \<Rightarrow> int \<Rightarrow> nat \<Rightarrow> nat \<Rightarrow> bool" where
  "unanimous g radius row col \<longleftrightarrow>
     length (most_common (Counter (kernel_cells g radius row col))) = 1"

section \<open>Properties\<close>

subsection \<open>Counter and its sorted counts\<close>

lemma count_in_counter_add:
  "count_in (counter_add x c) k = count_in c k + (if k = x then 1 else 0)"
  by (induction x c rule: counter_add.induct) (auto simp: count_in_def)

lemma keys_counter_add: "fst ` set (counter_add x c) = insert x (fst ` set c)"
  by (induction x c rule: counter_add.induct) auto

lemma distinct_counter_add:
  "distinct (map fst c) \<Longrightarrow> distinct (map fst (counter_add x c))"
  by (induction x c rule: counter_add.induct) (auto simp: keys_counter_add)

lemma foldl_counter_add:
  "count_in (foldl (\<lambda>counter x. counter_add x counter) c xs) k = count_in c k + count (mset xs) k"
  by (induction xs arbitrary: c) (auto simp: count_in_counter_add)

lemma keys_foldl_counter_add:
  "fst ` set (foldl (\<lambda>counter x. counter_add x counter) c xs) = fst ` set c \<union> set xs"
  by (induction xs arbitrary: c) (auto simp: keys_counter_add)

lemma distinct_foldl_counter_add:
  "distinct (map fst c) \<Longrightarrow> distinct (map fst (foldl (\<lambda>counter x. counter_add x counter) c xs))"
  by (induction xs arbitrary: c) (auto simp: distinct_counter_add)

lemma keys_Counter: "fst ` set (Counter xs) = set xs"
  by (simp add: Counter_def keys_foldl_counter_add)

lemma distinct_Counter: "distinct (map fst (Counter xs))"
  by (simp add: Counter_def distinct_foldl_counter_add)

lemma Counter_entry:
  assumes "(k, n) \<in> set (Counter xs)"
  shows "n = count (mset xs) k"
proof -
  have "map_of (Counter xs) k = Some n"
    using assms distinct_Counter [of xs] by (simp add: map_of_eq_Some_iff)
  then have "count_in (Counter xs) k = n" by (simp add: count_in_def)
  moreover have "count_in (Counter xs) k = count_in [] k + count (mset xs) k"
    unfolding Counter_def by (rule foldl_counter_add)
  ultimately show ?thesis by (simp add: count_in_def)
qed

lemma Counter_Nil_iff: "Counter xs = [] \<longleftrightarrow> xs = []"
  using keys_Counter [of xs] by (metis image_is_empty set_empty)

lemma sorted_most_common: "sorted (map (\<lambda>kv. - int (snd kv)) (most_common c))"
  by (simp add: most_common_def)

lemma set_most_common: "set (most_common c) = set c"
  by (simp add: most_common_def)

lemma length_most_common: "length (most_common c) = length c"
  by (simp add: most_common_def)

lemma distinct_keys_most_common: "distinct (map fst (most_common c)) = distinct (map fst c)"
proof -
  have "mset (map fst (most_common c)) = mset (map fst c)"
    by (simp add: most_common_def)
  then show ?thesis by (metis mset_eq_imp_distinct_iff)
qed

text \<open>The shape of the sorted counts of a non-empty list.\<close>
lemma most_common_Counter:
  assumes "xs \<noteq> []"
  obtains k0 rest where
    "most_common (Counter xs) = (k0, count (mset xs) k0) # rest"
    "k0 \<in> set xs"
    "k0 \<notin> fst ` set rest"
    "set xs = insert k0 (fst ` set rest)"
    "\<And>k n. (k, n) \<in> set rest \<Longrightarrow> n = count (mset xs) k"
    "sorted (map (\<lambda>kv. - int (snd kv)) rest)"
    "\<And>k n. (k, n) \<in> set rest \<Longrightarrow> n \<le> count (mset xs) k0"
proof -
  let ?mc = "most_common (Counter xs)"
  have "?mc \<noteq> []"
    using assms Counter_Nil_iff [of xs] length_most_common [of "Counter xs"] by auto
  then obtain k0 n0 rest where mc: "?mc = (k0, n0) # rest"
    by (cases ?mc) auto
  have ent: "\<And>k n. (k, n) \<in> set ?mc \<Longrightarrow> n = count (mset xs) k"
    by (simp add: set_most_common Counter_entry)
  have n0: "n0 = count (mset xs) k0" using ent [of k0 n0] mc by simp
  have keys: "fst ` set ?mc = set xs" by (simp add: set_most_common keys_Counter)
  have dist: "distinct (map fst ?mc)" by (simp add: distinct_keys_most_common distinct_Counter)
  have srt: "sorted (map (\<lambda>kv. - int (snd kv)) ?mc)" by (rule sorted_most_common)
  show thesis
  proof (rule that [of k0 rest])
    show "?mc = (k0, count (mset xs) k0) # rest" using mc n0 by simp
    show "k0 \<in> set xs" using keys mc by auto
    show "k0 \<notin> fst ` set rest" using dist mc by auto
    show "set xs = insert k0 (fst ` set rest)" using keys mc by auto
    show "\<And>k n. (k, n) \<in> set rest \<Longrightarrow> n = count (mset xs) k" using ent mc by auto
    show "sorted (map (\<lambda>kv. - int (snd kv)) rest)" using srt mc by simp
    show "\<And>k n. (k, n) \<in> set rest \<Longrightarrow> n \<le> count (mset xs) k0"
      using srt mc n0 by fastforce
  qed
qed

lemma vote_cases:
  assumes "xs \<noteq> []"
  obtains
    (tie) "length (most_common (Counter xs)) > 1"
          "snd (most_common (Counter xs) ! 0) = snd (most_common (Counter xs) ! 1)"
          "\<And>l. \<exists>l'. l' \<noteq> l \<and> count (mset xs) l \<le> count (mset xs) l'"
  | (win) k0 n0 rest where
          "\<not> (length (most_common (Counter xs)) > 1 \<and>
              snd (most_common (Counter xs) ! 0) = snd (most_common (Counter xs) ! 1))"
          "most_common (Counter xs) = (k0, n0) # rest"
          "k0 \<in> set xs"
          "\<And>l'. l' \<noteq> k0 \<Longrightarrow> count (mset xs) l' < count (mset xs) k0"
proof -
  let ?M = "mset xs"
  obtain k0 rest where
    mc: "most_common (Counter xs) = (k0, count ?M k0) # rest" and
    k0: "k0 \<in> set xs" and
    fresh: "k0 \<notin> fst ` set rest" and
    keys: "set xs = insert k0 (fst ` set rest)" and
    ent: "\<And>k n. (k, n) \<in> set rest \<Longrightarrow> n = count ?M k" and
    srt: "sorted (map (\<lambda>kv. - int (snd kv)) rest)" and
    le: "\<And>k n. (k, n) \<in> set rest \<Longrightarrow> n \<le> count ?M k0"
    using most_common_Counter [OF assms] by blast
  have pos: "0 < count ?M k0" using k0 by simp
  have le_all: "count ?M l \<le> count ?M k0" for l
  proof (cases "l \<in> fst ` set rest")
    case True
    then obtain n where "(l, n) \<in> set rest" by auto
    then show ?thesis using ent le by blast
  next
    case False
    then consider "l = k0" | "l \<notin> set xs" using keys by auto
    then show ?thesis
    proof cases
      case 1
      then show ?thesis by simp
    next
      case 2
      then have z: "count ?M l = 0" by simp
      show ?thesis unfolding z by simp
    qed
  qed
  show thesis
  proof (cases rest)
    case Nil
    have "count ?M l' < count ?M k0" if "l' \<noteq> k0" for l'
    proof -
      have "l' \<notin> set xs" using keys Nil that by auto
      then have z: "count ?M l' = 0" by simp
      show ?thesis unfolding z using pos by simp
    qed
    then show ?thesis using win [of k0 "count ?M k0" rest] mc k0 Nil by simp
  next
    case (Cons kv1 rest')
    obtain k1 n1 where kv1: "kv1 = (k1, n1)" by (cases kv1)
    have n1: "n1 = count ?M k1" using ent [of k1 n1] Cons kv1 by simp
    have k1: "k1 \<noteq> k0" using fresh Cons kv1 by auto
    show ?thesis
    proof (cases "count ?M k1 = count ?M k0")
      case True
      have "\<exists>l'. l' \<noteq> l \<and> count ?M l \<le> count ?M l'" for l
      proof (cases "l = k0")
        case True
        then show ?thesis using k1 \<open>count ?M k1 = count ?M k0\<close> by auto
      next
        case False
        then show ?thesis using le_all [of l] by auto
      qed
      then show ?thesis using tie mc Cons kv1 n1 True by simp
    next
      case False
      then have lt: "count ?M k1 < count ?M k0" using le_all [of k1] by simp
      have "count ?M l' < count ?M k0" if "l' \<noteq> k0" for l'
      proof (cases "l' \<in> fst ` set rest")
        case True
        then obtain n where mem: "(l', n) \<in> set rest" by auto
        then have n: "n = count ?M l'" using ent by blast
        have "n \<le> n1" using srt mem Cons kv1 by fastforce
        then show ?thesis using lt n n1 by simp
      next
        case False
        then have "l' \<notin> set xs" using keys that by auto
        then have z: "count ?M l' = 0" by simp
        show ?thesis unfolding z using pos by simp
      qed
      then show ?thesis using win [of k0 "count ?M k0" rest] mc k0 Cons kv1 n1 False by simp
    qed
  qed
qed

text \<open>The body of the loop as a vote on the multiset of the kernel.\<close>

lemma corrected_cell_winner:
  assumes "kernel_cells p radius row col \<noteq> []"
    and "\<And>l'. l' \<noteq> l \<Longrightarrow> count (mset (kernel_cells p radius row col)) l' < count (mset (kernel_cells p radius row col)) l"
  shows "corrected_cell p radius row col = Inr l"
  using assms(1)
proof (cases rule: vote_cases)
  case tie
  then obtain l' where "l' \<noteq> l" "count (mset (kernel_cells p radius row col)) l \<le> count (mset (kernel_cells p radius row col)) l'"
    by blast
  then show ?thesis using assms(2) [of l'] by simp
next
  case (win k0 n0 rest)
  have "k0 = l"
  proof (rule ccontr)
    assume "k0 \<noteq> l"
    then show False using win(4) [of l] assms(2) [of k0] by simp
  qed
  then show ?thesis using win(1,2) by (auto simp: corrected_cell_def Let_def)
qed

lemma corrected_cell_tie:
  assumes "kernel_cells p radius row col \<noteq> []"
    and "\<And>l. \<exists>l'. l' \<noteq> l \<and> count (mset (kernel_cells p radius row col)) l \<le> count (mset (kernel_cells p radius row col)) l'"
  shows "corrected_cell p radius row col = Inr (cell p row col)"
  using assms(1)
proof (cases rule: vote_cases)
  case tie
  then show ?thesis by (simp add: corrected_cell_def Let_def)
next
  case (win k0 n0 rest)
  obtain l' where "l' \<noteq> k0"
    "count (mset (kernel_cells p radius row col)) k0 \<le> count (mset (kernel_cells p radius row col)) l'"
    using assms(2) [of k0] by blast
  then show ?thesis using win(4) [of l'] by simp
qed

lemma corrected_cell_total:
  assumes "kernel_cells p radius row col \<noteq> []"
  shows "\<exists>v. corrected_cell p radius row col = Inr v \<and>
             (v = cell p row col \<or> v \<in> set (kernel_cells p radius row col))"
  using assms
proof (cases rule: vote_cases)
  case tie
  then show ?thesis by (simp add: corrected_cell_def Let_def)
next
  case (win k0 n0 rest)
  then show ?thesis by (auto simp: corrected_cell_def Let_def)
qed

lemma corrected_cell_error:
  "corrected_cell p radius row col = Inl e \<Longrightarrow> e = IndexError"
  by (auto simp: corrected_cell_def Let_def split: if_splits list.splits)

subsection \<open>The kernel and the loops of the correction\<close>

lemma map_product_concat:
  "map (\<lambda>(r, c). f r c) (List.product rows cols) = concat (map (\<lambda>r. map (f r) cols) rows)"
  by (induction rows) (simp_all add: comp_def)

lemma upt_min_lower: "b \<le> n \<Longrightarrow> [min a n ..< b] = [a ..< b]"
  by (cases "a \<le> n") (simp_all add: min_def)

lemma slice_index_upper: "1 \<le> radius \<Longrightarrow>
  slice_index (max 0 (int row - (radius - 1))) n = min (nat (max 0 (int row - radius + 1))) n"
  by (simp add: slice_index_def algebra_simps)

lemma slice_index_lower: "1 \<le> radius \<Longrightarrow>
  slice_index (min (int n) (int row + radius)) n = nat (min (int n) (int row + radius))"
  by (auto simp: slice_index_def min_def)

lemma kernel_cells_eq:
  assumes "1 \<le> radius"
  shows "kernel_cells g radius r c =
     concat (map (\<lambda>r'. map (\<lambda>c'. cell g r' c')
        [nat (max 0 (int c - radius + 1)) ..< nat (min (int (ncols g)) (int c + radius))])
        [nat (max 0 (int r - radius + 1)) ..< nat (min (int (nrows g)) (int r + radius))])"
proof -
  have a: "nat (min (int n) (int k + radius)) \<le> n" for n k by simp
  show ?thesis
    unfolding kernel_cells_def Let_def slice2_ravel_def
    by (simp only: slice_index_upper [OF assms] slice_index_lower [OF assms] upt_min_lower [OF a])
qed

lemma kernel_cells_window_labels:
  "1 \<le> radius \<Longrightarrow> kernel_cells g radius r c = window_labels g radius r c"
  unfolding window_labels_def window_positions_def fst_conv snd_conv
  by (simp only: kernel_cells_eq map_product_concat)

lemma mset_kernel_cells:
  "1 \<le> radius \<Longrightarrow> mset (kernel_cells g radius r c) = clipped_window g radius r c"
  by (simp only: clipped_window_def kernel_cells_window_labels)

lemma center_in_kernel:
  assumes "1 \<le> radius" "r < nrows g" "c < ncols g"
  shows "cell g r c \<in> set (kernel_cells g radius r c)"
proof -
  let ?rows = "[nat (max 0 (int r - radius + 1)) ..< nat (min (int (nrows g)) (int r + radius))]"
  let ?cols = "[nat (max 0 (int c - radius + 1)) ..< nat (min (int (ncols g)) (int c + radius))]"
  have "r \<in> set ?rows" using assms by auto
  then have "map (\<lambda>c'. cell g r c') ?cols \<in> set (map (\<lambda>r'. map (\<lambda>c'. cell g r' c') ?cols) ?rows)"
    by (simp only: set_map) (rule imageI)
  moreover have "c \<in> set ?cols" using assms by auto
  then have "cell g r c \<in> set (map (\<lambda>c'. cell g r c') ?cols)"
    by (simp only: set_map) (rule imageI)
  ultimately have "cell g r c \<in> set (concat (map (\<lambda>r'. map (\<lambda>c'. cell g r' c') ?cols) ?rows))"
    by (simp only: set_concat) (rule UN_I)
  then show ?thesis by (simp only: kernel_cells_eq [OF assms(1)])
qed

lemma cell_in_cells:
  assumes "well_shaped g" "r < nrows g" "c < ncols g"
  shows "cell g r c \<in> set (cells g)"
proof -
  have "r * ncols g + c < Suc r * ncols g" using assms(3) by simp
  also have "\<dots> \<le> nrows g * ncols g" using assms(2) by (intro mult_le_mono1) simp
  finally show ?thesis using assms(1) by (simp add: cell_def well_shaped_def)
qed

lemma kernel_in_cells:
  assumes "well_shaped g" "1 \<le> radius" "v \<in> set (kernel_cells g radius r c)"
  shows "v \<in> set (cells g)"
proof -
  from assms(3) obtain r' c' where
    "r' < nat (min (int (nrows g)) (int r + radius))"
    "c' < nat (min (int (ncols g)) (int c + radius))" "v = cell g r' c'"
    unfolding kernel_cells_eq [OF assms(2)] by auto
  then show ?thesis using cell_in_cells [OF assms(1), of r' c'] by auto
qed

text \<open>The loops build the corrected cells in row-major order.\<close>

lemma correct_cols_Inr:
  assumes "\<And>col. col \<in> set cols \<Longrightarrow> corrected_cell p radius row col = Inr (f col)"
  shows "correct_cols p radius row cols acc = Inr (acc @ map f cols)"
  using assms by (induction cols arbitrary: acc) simp_all

lemma correct_rows_Inr:
  assumes "\<And>row col. row \<in> set rows \<Longrightarrow> col < ncols p \<Longrightarrow>
             corrected_cell p radius row col = Inr (f row col)"
  shows "correct_rows p radius rows acc =
           Inr (acc @ concat (map (\<lambda>row. map (f row) [0..<ncols p]) rows))"
  using assms
proof (induction rows arbitrary: acc)
  case Nil
  then show ?case by simp
next
  case (Cons row rows)
  have "correct_cols p radius row [0..<ncols p] acc = Inr (acc @ map (f row) [0..<ncols p])"
    by (rule correct_cols_Inr) (simp add: Cons.prems)
  then show ?case using Cons by simp
qed

lemma row_block:
  "map (\<lambda>i. f (i div w) (i mod w)) [h * w ..< h * w + w] = map (f h) [0..<w]"
proof -
  have "[h * w ..< h * w + w] = map (\<lambda>c. c + h * w) [0..<w]"
    by (simp only: map_add_upt add.commute [of w])
  moreover have "f ((c + h * w) div w) ((c + h * w) mod w) = f h c" if "c < w" for c
    using that by simp
  ultimately show ?thesis by (simp add: comp_def)
qed

lemma row_major_concat:
  "concat (map (\<lambda>row. map (f row) [0..<w]) [0..<h]) =
     map (\<lambda>i. f (i div w) (i mod w)) [0..<h * w]"
proof (induction h)
  case 0
  then show ?case by simp
next
  case (Suc h)
  have "[0..<Suc h * w] = [0..<h * w + w]" by (simp add: add.commute)
  also have "\<dots> = [0..<h * w] @ [h * w ..< h * w + w]"
    by (rule upt_add_eq_append) simp
  finally have "map (\<lambda>i. f (i div w) (i mod w)) [0..<Suc h * w] =
      map (\<lambda>i. f (i div w) (i mod w)) [0..<h * w] @ map (f h) [0..<w]"
    by (simp only: map_append row_block)
  then show ?case using Suc by simp
qed

lemma spatial_correction_Inr:
  assumes "\<And>row col. row < nrows p \<Longrightarrow> col < ncols p \<Longrightarrow>
             corrected_cell p radius row col = Inr (f row col)"
  shows "spatial_correction p radius =
           Inr \<lparr>nrows = nrows p, ncols = ncols p,
                cells = map (\<lambda>i. f (i div ncols p) (i mod ncols p)) [0..<nrows p * ncols p]\<rparr>"
proof -
  have "correct_rows p radius [0..<nrows p] [] =
          Inr ([] @ concat (map (\<lambda>row. map (f row) [0..<ncols p]) [0..<nrows p]))"
    by (rule correct_rows_Inr) (simp add: assms)
  then show ?thesis by (simp add: spatial_correction_def row_major_concat)
qed

lemma row_major_index:
  fixes r c h w :: nat
  assumes "r < h" "c < w"
  shows "r * w + c < h * w" "(r * w + c) div w = r" "(r * w + c) mod w = c"
proof -
  have "Suc r \<le> h" using assms(1) by simp
  then have "Suc r * w \<le> h * w" by (rule mult_le_mono1)
  then show "r * w + c < h * w" using assms(2) by simp
  show "(r * w + c) div w = r" using assms(2) by simp
  show "(r * w + c) mod w = c" using assms(2) by simp
qed

lemma label_cases3: "(\<forall>l. P l) \<longleftrightarrow> P CHANGED \<and> P UNCHANGED \<and> P UNKNOWN"
  by (metis label.exhaust)

lemma kernel_nonempty:
  "1 \<le> radius \<Longrightarrow> r < nrows g \<Longrightarrow> c < ncols g \<Longrightarrow> kernel_cells g radius r c \<noteq> []"
  using center_in_kernel [of radius r g c] by auto

lemma spatial_correction_cells:
  assumes "1 \<le> radius"
  obtains g' where
    "spatial_correction g radius = Inr g'"
    "nrows g' = nrows g" "ncols g' = ncols g" "well_shaped g'"
    "\<And>r c. r < nrows g \<Longrightarrow> c < ncols g \<Longrightarrow> corrected_cell g radius r c = Inr (cell g' r c)"
proof -
  define f where "f r c = projr (corrected_cell g radius r c)" for r c
  define g' where "g' = \<lparr>nrows = nrows g, ncols = ncols g,
      cells = map (\<lambda>i. f (i div ncols g) (i mod ncols g)) [0..<nrows g * ncols g]\<rparr>"
  have cellf: "corrected_cell g radius r c = Inr (f r c)" if "r < nrows g" "c < ncols g" for r c
    using corrected_cell_total [OF kernel_nonempty [OF assms that]] by (auto simp: f_def)
  have "spatial_correction g radius = Inr g'"
    unfolding g'_def by (rule spatial_correction_Inr) (rule cellf)
  moreover have "cell g' r c = f r c" if "r < nrows g" "c < ncols g" for r c
    using row_major_index [OF that] by (simp add: g'_def cell_def)
  ultimately show thesis
    using that [of g'] cellf by (simp add: g'_def well_shaped_def)
qed

subsection \<open>Majority vote of the correction\<close>

text \<open>
  C3. For a 2-dim label map, a radius \<open>\<ge> 1\<close> and a pixel \<open>(r, c)\<close> of the map,
  \<^verbatim>\<open>spatial_correction\<close> returns a map of the same shape whose label at \<open>(r, c)\<close> is
  decided by the frequencies of the labels in the clipped window (rows
  \<open>[max(0, r-radius+1), min(H, r+radius))\<close>, columns likewise, no wraparound, no padding):
  a label that is strictly more frequent than every other label is assigned; when no
  label is strictly most frequent, that is on a tie for the top frequency among two or
  more labels, the pixel keeps its original label.
\<close>

theorem spatial_correction_majority:
  assumes "well_shaped g" "1 \<le> radius" "r < nrows g" "c < ncols g"
  shows "\<exists>g'. spatial_correction g radius = Inr g' \<and>
           nrows g' = nrows g \<and> ncols g' = ncols g \<and> well_shaped g' \<and>
           (\<forall>l. (\<forall>l'. l' \<noteq> l \<longrightarrow>
                   count (clipped_window g radius r c) l' < count (clipped_window g radius r c) l)
                \<longrightarrow> cell g' r c = l) \<and>
           ((\<forall>l. \<exists>l'. l' \<noteq> l \<and>
                   count (clipped_window g radius r c) l \<le> count (clipped_window g radius r c) l')
                \<longrightarrow> cell g' r c = cell g r c)"
proof -
  obtain g' where g': "spatial_correction g radius = Inr g'"
    "nrows g' = nrows g" "ncols g' = ncols g" "well_shaped g'"
    and cells: "\<And>r c. r < nrows g \<Longrightarrow> c < ncols g \<Longrightarrow>
                  corrected_cell g radius r c = Inr (cell g' r c)"
    using spatial_correction_cells [OF assms(2)] by blast
  have ne: "kernel_cells g radius r c \<noteq> []" by (rule kernel_nonempty [OF assms(2-4)])
  have win: "mset (kernel_cells g radius r c) = clipped_window g radius r c"
    by (rule mset_kernel_cells [OF assms(2)])
  have here: "corrected_cell g radius r c = Inr (cell g' r c)" by (rule cells [OF assms(3,4)])
  have "cell g' r c = l"
    if "\<forall>l'. l' \<noteq> l \<longrightarrow>
          count (clipped_window g radius r c) l' < count (clipped_window g radius r c) l" for l
    using corrected_cell_winner [OF ne, of l] that here by (simp add: win)
  moreover have "cell g' r c = cell g r c"
    if "\<forall>l. \<exists>l'. l' \<noteq> l \<and>
          count (clipped_window g radius r c) l \<le> count (clipped_window g radius r c) l'"
    using corrected_cell_tie [OF ne] that here by (simp add: win)
  ultimately show ?thesis using g' by blast
qed
theorem spatial_correction_majority_witness:
  "(\<exists>g'. spatial_correction \<lparr>nrows = 1, ncols = 3, cells = [CHANGED, UNCHANGED, UNCHANGED]\<rparr> 2 = Inr g' \<and>
        cell g' 0 1 = UNCHANGED \<and> cell g' 0 0 = CHANGED) \<and>
   (\<exists>g'. spatial_correction \<lparr>nrows = 1, ncols = 3, cells = [CHANGED, UNCHANGED, UNKNOWN]\<rparr> 2 = Inr g' \<and>
        cell g' 0 1 = UNCHANGED)"
proof
  let ?g = "\<lparr>nrows = 1, ncols = 3, cells = [CHANGED, UNCHANGED, UNCHANGED]\<rparr>"
  have shp: "well_shaped ?g" "(1::int) \<le> 2" "0 < nrows ?g" "1 < ncols ?g" "0 < ncols ?g"
    by (simp_all add: well_shaped_def)
  have w1: "clipped_window ?g 2 0 1 = {#CHANGED, UNCHANGED, UNCHANGED#}"
    by (simp add: clipped_window_def window_labels_def window_positions_def cell_def upt_rec)
  have w0: "clipped_window ?g 2 0 0 = {#CHANGED, UNCHANGED#}"
    by (simp add: clipped_window_def window_labels_def window_positions_def cell_def upt_rec)
  have maj: "\<forall>l'. l' \<noteq> UNCHANGED \<longrightarrow>
      count (clipped_window ?g 2 0 1) l' < count (clipped_window ?g 2 0 1) UNCHANGED"
    unfolding w1 by (simp add: label_cases3)
  have tie: "\<forall>l. \<exists>l'. l' \<noteq> l \<and>
      count (clipped_window ?g 2 0 0) l \<le> count (clipped_window ?g 2 0 0) l'"
    unfolding w0 by (simp add: label_cases3) (metis label.distinct(1,3))
  from spatial_correction_majority [OF shp(1,2,3,4)] maj
  obtain g1 where g1: "spatial_correction ?g 2 = Inr g1" "cell g1 0 1 = UNCHANGED" by blast
  from spatial_correction_majority [OF shp(1,2,3,5)] tie
  obtain g0 where g0: "spatial_correction ?g 2 = Inr g0" "cell g0 0 0 = cell ?g 0 0" by blast
  have "g0 = g1" using g0(1) g1(1) by simp
  then show "\<exists>g'. spatial_correction ?g 2 = Inr g' \<and> cell g' 0 1 = UNCHANGED \<and> cell g' 0 0 = CHANGED"
    using g0 g1 by (simp add: cell_def)
next
  let ?g = "\<lparr>nrows = 1, ncols = 3, cells = [CHANGED, UNCHANGED, UNKNOWN]\<rparr>"
  have shp: "well_shaped ?g" "(1::int) \<le> 2" "0 < nrows ?g" "1 < ncols ?g"
    by (simp_all add: well_shaped_def)
  have w: "clipped_window ?g 2 0 1 = {#CHANGED, UNCHANGED, UNKNOWN#}"
    by (simp add: clipped_window_def window_labels_def window_positions_def cell_def upt_rec)
  have tie: "\<forall>l. \<exists>l'. l' \<noteq> l \<and>
      count (clipped_window ?g 2 0 1) l \<le> count (clipped_window ?g 2 0 1) l'"
    unfolding w by (simp add: label_cases3) (metis label.distinct(1,3))
  from spatial_correction_majority [OF shp] tie
  obtain g' where "spatial_correction ?g 2 = Inr g'" "cell g' 0 1 = cell ?g 0 1" by blast
  then show "\<exists>g'. spatial_correction ?g 2 = Inr g' \<and> cell g' 0 1 = UNCHANGED"
    by (auto simp: cell_def)
qed

text \<open>
  C8. For a radius \<open>\<ge> 1\<close>, the clipped window of every pixel contains the pixel's own
  label, the label \<^verbatim>\<open>spatial_correction\<close> writes at the pixel occurs in that window of
  the input, and so every label of the corrected map is a label of the input map.
\<close>

theorem spatial_correction_label_from_window:
  assumes "well_shaped g" "1 \<le> radius"
  shows "\<exists>g'. spatial_correction g radius = Inr g' \<and>
           (\<forall>r < nrows g. \<forall>c < ncols g.
              cell g r c \<in># clipped_window g radius r c \<and>
              cell g' r c \<in># clipped_window g radius r c) \<and>
           set (cells g') \<subseteq> set (cells g)"
proof -
  obtain g' where g': "spatial_correction g radius = Inr g'"
    "nrows g' = nrows g" "ncols g' = ncols g" "well_shaped g'"
    and cells: "\<And>r c. r < nrows g \<Longrightarrow> c < ncols g \<Longrightarrow>
                  corrected_cell g radius r c = Inr (cell g' r c)"
    using spatial_correction_cells [OF assms(2)] by blast
  have inwin: "cell g r c \<in> set (kernel_cells g radius r c) \<and>
               cell g' r c \<in> set (kernel_cells g radius r c)"
    if "r < nrows g" "c < ncols g" for r c
    using corrected_cell_total [OF kernel_nonempty [OF assms(2) that]]
      cells [OF that] center_in_kernel [OF assms(2) that] by auto
  have a: "cell g r c \<in># clipped_window g radius r c \<and> cell g' r c \<in># clipped_window g radius r c"
    if "r < nrows g" "c < ncols g" for r c
    using inwin [OF that] mset_kernel_cells [OF assms(2), of g r c]
    by (metis set_mset_mset)
  have "v \<in> set (cells g)" if "v \<in> set (cells g')" for v
  proof -
    from that obtain i where i: "i < length (cells g')" "v = cells g' ! i"
      by (auto simp: in_set_conv_nth)
    then have lt: "i < nrows g * ncols g" using g' by (simp add: well_shaped_def)
    then have w: "0 < ncols g" by (cases "ncols g") auto
    have r: "i div ncols g < nrows g" using lt w by (simp add: less_mult_imp_div_less)
    have c: "i mod ncols g < ncols g" using w by simp
    have "v = cell g' (i div ncols g) (i mod ncols g)"
      using i(2) g'(3) by (simp add: cell_def)
    then show ?thesis
      using inwin [OF r c] kernel_in_cells [OF assms] by blast
  qed
  then show ?thesis using g'(1) a by blast
qed
theorem spatial_correction_label_from_window_witness:
  "\<exists>g'. spatial_correction \<lparr>nrows = 1, ncols = 3, cells = [CHANGED, UNCHANGED, UNCHANGED]\<rparr> 2 = Inr g' \<and>
      cell g' 0 0 \<in># {#CHANGED, UNCHANGED#} \<and> set (cells g') \<subseteq> {CHANGED, UNCHANGED}"
proof -
  let ?g = "\<lparr>nrows = 1, ncols = 3, cells = [CHANGED, UNCHANGED, UNCHANGED]\<rparr>"
  have shp: "well_shaped ?g" "(1::int) \<le> 2" by (simp_all add: well_shaped_def)
  have w0: "clipped_window ?g 2 0 0 = {#CHANGED, UNCHANGED#}"
    by (simp add: clipped_window_def window_labels_def window_positions_def cell_def upt_rec)
  from spatial_correction_label_from_window [OF shp]
  obtain g' where g': "spatial_correction ?g 2 = Inr g'"
    "\<forall>r < nrows ?g. \<forall>c < ncols ?g. cell ?g r c \<in># clipped_window ?g 2 r c \<and>
        cell g' r c \<in># clipped_window ?g 2 r c"
    "set (cells g') \<subseteq> set (cells ?g)" by blast
  have "cell g' 0 0 \<in># clipped_window ?g 2 0 0" using g'(2) by simp
  then show ?thesis using g'(1,3) unfolding w0 by auto
qed

lemma kernel_radius_1:
  assumes "r < nrows g" "c < ncols g"
  shows "kernel_cells g 1 r c = [cell g r c]"
proof -
  have hi: "nat (min (int (nrows g)) (int r + 1)) = Suc r"
    "nat (min (int (ncols g)) (int c + 1)) = Suc c"
    using assms by linarith+
  have lo: "nat (max 0 (int r - 1 + 1)) = r" "nat (max 0 (int c - 1 + 1)) = c"
    by simp_all
  have "kernel_cells g 1 r c =
      concat (map (\<lambda>r'. map (\<lambda>c'. cell g r' c') [c ..< Suc c]) [r ..< Suc r])"
    using kernel_cells_eq [of 1 g r c] by (simp only: hi lo)
  then show ?thesis by simp
qed

text \<open>
  C9. With radius 1 the kernel of a pixel is the pixel alone, its \<^verbatim>\<open>Counter\<close> has the
  single entry (label, 1), and \<^verbatim>\<open>spatial_correction\<close> returns the input map unchanged.
\<close>

theorem spatial_correction_radius_1:
  assumes "well_shaped g"
  shows "spatial_correction g 1 = Inr g \<and>
         (\<forall>r < nrows g. \<forall>c < ncols g.
            kernel_cells g 1 r c = [cell g r c] \<and>
            Counter (kernel_cells g 1 r c) = [(cell g r c, 1)])"
proof -
  have "corrected_cell g 1 r c = Inr (cell g r c)" if "r < nrows g" "c < ncols g" for r c
    using corrected_cell_total [of g 1 r c] kernel_radius_1 [OF that] by auto
  then have "spatial_correction g 1 = Inr \<lparr>nrows = nrows g, ncols = ncols g,
      cells = map (\<lambda>i. cell g (i div ncols g) (i mod ncols g)) [0..<nrows g * ncols g]\<rparr>"
    by (rule spatial_correction_Inr)
  moreover have "map (\<lambda>i. cell g (i div ncols g) (i mod ncols g)) [0..<nrows g * ncols g] = cells g"
    using assms by (intro nth_equalityI) (simp_all add: well_shaped_def cell_def)
  ultimately have "spatial_correction g 1 = Inr g" by simp
  then show ?thesis by (simp add: kernel_radius_1 Counter_def)
qed

theorem spatial_correction_radius_1_witness:
  "spatial_correction \<lparr>nrows = 2, ncols = 2, cells = [CHANGED, UNCHANGED, UNKNOWN, CHANGED]\<rparr> 1 =
     Inr \<lparr>nrows = 2, ncols = 2, cells = [CHANGED, UNCHANGED, UNKNOWN, CHANGED]\<rparr> \<and>
   Counter (kernel_cells \<lparr>nrows = 2, ncols = 2, cells = [CHANGED, UNCHANGED, UNKNOWN, CHANGED]\<rparr> 1 1 0)
     = [(UNKNOWN, 1)]"
proof -
  let ?g = "\<lparr>nrows = 2, ncols = 2, cells = [CHANGED, UNCHANGED, UNKNOWN, CHANGED]\<rparr>"
  have shp: "well_shaped ?g" by (simp add: well_shaped_def)
  have "(1::nat) < nrows ?g" "(0::nat) < ncols ?g" by simp_all
  with spatial_correction_radius_1 [OF shp]
  have "spatial_correction ?g 1 = Inr ?g"
    "Counter (kernel_cells ?g 1 1 0) = [(cell ?g 1 0, 1)]" by blast+
  then show ?thesis by (simp add: cell_def)
qed

subsection \<open>Validation of the parameters\<close>

lemma correct_cols_error:
  "correct_cols p radius row cols acc = Inl e \<Longrightarrow> e = IndexError"
  by (induction cols arbitrary: acc) (auto split: sum.splits dest: corrected_cell_error)

lemma correct_rows_error:
  "correct_rows p radius rows acc = Inl e \<Longrightarrow> e = IndexError"
  by (induction rows arbitrary: acc) (auto split: sum.splits dest: correct_cols_error)

lemma spatial_correction_error:
  "spatial_correction p radius = Inl e \<Longrightarrow> e = IndexError"
  by (auto simp: spatial_correction_def split: sum.splits dest: correct_rows_error)

lemma take_rows_error: "take_rows m perm = Inl e \<Longrightarrow> e = IndexError"
  by (auto simp: take_rows_def split: if_splits)

lemma reshape_error: "reshape xs shp = Inl e \<Longrightarrow> e = ReshapeError (length xs) shp"
  by (auto simp: reshape_def split: if_splits)

text \<open>
  C5. \<^verbatim>\<open>labels_by_percentage\<close> returns its validation error exactly when the percentage
  is outside \<open>]0, 1]\<close>, and \<^verbatim>\<open>labels_by_neighborhood\<close> returns its validation error
  exactly when the radius is below 1. Each message names the parameter. The equivalences
  hold for every dictionary and every argsort, also for a dictionary whose distances do
  not fit its shape: the check comes before any use of the dictionary. (With a valid
  radius such a dictionary fails in \<^verbatim>\<open>np.reshape\<close>, which is the error \<open>ReshapeError\<close>
  and not the validation error of the radius.)
\<close>

theorem parameter_validation:
  "(labels_by_percentage argsort pseudo percentage =
      Inl (ValueError ''ERROR: percentage must be a float in ]0,1]'')
      \<longleftrightarrow> percentage \<le> 0 \<or> percentage > 1) \<and>
   (labels_by_neighborhood pseudo' radius =
      Inl (ValueError ''ERROR: radius must be a int >=1'')
      \<longleftrightarrow> radius < 1) \<and>
   sublist ''percentage'' ''ERROR: percentage must be a float in ]0,1]'' \<and>
   sublist ''radius'' ''ERROR: radius must be a int >=1''"
proof -
  have a: "labels_by_percentage argsort pseudo percentage \<noteq> Inl (ValueError msg)"
    if "\<not> (percentage \<le> 0 \<or> percentage > 1)" for msg
    using that
    by (auto simp: labels_by_percentage_def Let_def split: sum.splits dest: take_rows_error)
  have b: "labels_by_neighborhood pseudo' radius \<noteq> Inl (ValueError msg)"
    if "\<not> radius < 1" for msg
    using that
    by (auto simp: labels_by_neighborhood_def split: sum.splits
          dest: reshape_error spatial_correction_error)
  have c: "sublist ''percentage'' ''ERROR: percentage must be a float in ]0,1]''"
    unfolding sublist_def
    by (rule exI [of _ "''ERROR: ''"], rule exI [of _ "'' must be a float in ]0,1]''"]) simp
  have d: "sublist ''radius'' ''ERROR: radius must be a int >=1''"
    unfolding sublist_def
    by (rule exI [of _ "''ERROR: ''"], rule exI [of _ "'' must be a int >=1''"]) simp
  have e: "labels_by_percentage argsort pseudo percentage =
      Inl (ValueError ''ERROR: percentage must be a float in ]0,1]'')"
    if "percentage \<le> 0 \<or> percentage > 1"
    using that by (simp add: labels_by_percentage_def)
  have f: "labels_by_neighborhood pseudo' radius =
      Inl (ValueError ''ERROR: radius must be a int >=1'')" if "radius < 1"
    using that by (simp add: labels_by_neighborhood_def)
  show ?thesis using a b c d e f by blast
qed

theorem parameter_validation_witness:
  "labels_by_percentage stable_argsort
      \<lparr>distances = [0.1, 0.2, 0.8, 0.9], threshold = 0.5, shape = (2, 2)\<rparr> 0 =
      Inl (ValueError ''ERROR: percentage must be a float in ]0,1]'') \<and>
   labels_by_percentage stable_argsort
      \<lparr>distances = [0.1, 0.2, 0.8, 0.9], threshold = 0.5, shape = (2, 2)\<rparr> (3 / 2) =
      Inl (ValueError ''ERROR: percentage must be a float in ]0,1]'') \<and>
   labels_by_percentage stable_argsort
      \<lparr>distances = [0.1, 0.2, 0.8, 0.9], threshold = 0.5, shape = (2, 2)\<rparr> (1 / 2) \<noteq>
      Inl (ValueError ''ERROR: percentage must be a float in ]0,1]'') \<and>
   labels_by_neighborhood \<lparr>distances = [0.1, 0.2], threshold = 0.5, shape = (2, 2)\<rparr> 0 =
      Inl (ValueError ''ERROR: radius must be a int >=1'') \<and>
   labels_by_neighborhood \<lparr>distances = [0.1, 0.2], threshold = 0.5, shape = (2, 2)\<rparr> 1 \<noteq>
      Inl (ValueError ''ERROR: radius must be a int >=1'')"
  using
    parameter_validation [of stable_argsort
      "\<lparr>distances = [0.1, 0.2, 0.8, 0.9], threshold = 0.5, shape = (2, 2)\<rparr>" 0
      "\<lparr>distances = [0.1, 0.2], threshold = 0.5, shape = (2, 2)\<rparr>" 0]
    parameter_validation [of stable_argsort
      "\<lparr>distances = [0.1, 0.2, 0.8, 0.9], threshold = 0.5, shape = (2, 2)\<rparr>" "3 / 2"
      "\<lparr>distances = [0.1, 0.2], threshold = 0.5, shape = (2, 2)\<rparr>" 1]
    parameter_validation [of stable_argsort
      "\<lparr>distances = [0.1, 0.2, 0.8, 0.9], threshold = 0.5, shape = (2, 2)\<rparr>" "1 / 2"
      "\<lparr>distances = [0.1, 0.2], threshold = 0.5, shape = (2, 2)\<rparr>" 1]
  by simp

subsection \<open>Building labels from distances\<close>

text \<open>
  C7. Building the labels is elementwise, \<open>CHANGED\<close> iff the distance exceeds the
  threshold and \<open>UNCHANGED\<close> otherwise, so the label map is a function of the distances
  and the threshold alone and building it again gives the same map. It is monotonic in
  the threshold: for \<open>t \<le> t'\<close> a position that is \<open>UNCHANGED\<close> under \<open>t\<close> is
  \<open>UNCHANGED\<close> under \<open>t'\<close>, and a position whose label differs went from \<open>CHANGED\<close>
  to \<open>UNCHANGED\<close>. \<^verbatim>\<open>pseudo_labels\<close> without the flag returns this map for Otsu's
  threshold.
\<close>

theorem where_greater_monotone:
  "length (where_greater ds t) = length ds \<and>
   (\<forall>i < length ds. where_greater ds t ! i = (if ds ! i > t then CHANGED else UNCHANGED)) \<and>
   (t \<le> t' \<longrightarrow>
      (\<forall>i < length ds.
         (where_greater ds t ! i = UNCHANGED \<longrightarrow> where_greater ds t' ! i = UNCHANGED) \<and>
         (where_greater ds t ! i \<noteq> where_greater ds t' ! i \<longrightarrow>
            where_greater ds t ! i = CHANGED \<and> where_greater ds t' ! i = UNCHANGED))) \<and>
   pseudo_labels otsu img_a img_b dist_function False =
     (Label_map (where_greater (dist_function (img_a, img_b))
                               (otsu (dist_function (img_a, img_b)))),
      otsu (dist_function (img_a, img_b)))"
  by (auto simp: where_greater_def pseudo_labels_def Let_def)

theorem where_greater_monotone_witness:
  "(1 / 2 :: real) \<le> 17 / 20 \<and> 2 < length [1 / 10, 1 / 5, 4 / 5, 9 / 10 :: real] \<and>
   where_greater [1 / 10, 1 / 5, 4 / 5, 9 / 10] (1 / 2) = [UNCHANGED, UNCHANGED, CHANGED, CHANGED] \<and>
   where_greater [1 / 10, 1 / 5, 4 / 5, 9 / 10] (1 / 2) ! 0 = UNCHANGED \<and>
   where_greater [1 / 10, 1 / 5, 4 / 5, 9 / 10] (17 / 20) ! 0 = UNCHANGED \<and>
   where_greater [1 / 10, 1 / 5, 4 / 5, 9 / 10] (1 / 2) ! 2 = CHANGED \<and>
   where_greater [1 / 10, 1 / 5, 4 / 5, 9 / 10] (17 / 20) ! 2 = UNCHANGED"
  using where_greater_monotone [of "[1 / 10, 1 / 5, 4 / 5, 9 / 10]" "1 / 2" "17 / 20"]
  by (simp add: where_greater_def)

subsection \<open>Selection by percentage\<close>

text \<open>Reordering rows by an argsort of their keys ranks the rows.\<close>

lemma take_rows_argsort:
  assumes "is_argsort argsort"
  obtains ranked where
    "take_rows m (argsort (map key m)) = Inr ranked"
    "mset ranked = mset m"
    "sorted (map key ranked)"
proof -
  let ?perm = "argsort (map key m)"
  have perm: "mset ?perm = mset [0..<length m]" and srt: "sorted (map (\<lambda>i. map key m ! i) ?perm)"
    using assms unfolding is_argsort_def by (metis length_map)+
  have "set ?perm = set [0..<length m]" using perm by (rule mset_eq_setD)
  then have inb: "\<And>i. i \<in> set ?perm \<Longrightarrow> i < length m" by simp
  have "mset (map (\<lambda>i. m ! i) ?perm) = image_mset (\<lambda>i. m ! i) (mset [0..<length m])"
    using perm by (metis mset_map)
  also have "\<dots> = mset (map (\<lambda>i. m ! i) [0..<length m])" by simp
  also have "\<dots> = mset m" by (simp only: map_nth)
  finally have a: "mset (map (\<lambda>i. m ! i) ?perm) = mset m" .
  have "map key (map (\<lambda>i. m ! i) ?perm) = map (\<lambda>i. map key m ! i) ?perm"
    using inb by simp
  then have b: "sorted (map key (map (\<lambda>i. m ! i) ?perm))" using srt by (simp only:)
  have "take_rows m ?perm = Inr (map (\<lambda>i. m ! i) ?perm)"
    using inb by (simp add: take_rows_def)
  then show thesis using that a b by blast
qed

text \<open>Rounding to a double never crosses a whole number and fixes the whole numbers.\<close>

lemma round_half_even_of_int: "round_half_even (of_int m) = m"
  by (simp add: round_half_even_def)

lemma round_half_even_le: "y \<le> of_int m \<Longrightarrow> round_half_even y \<le> m"
  unfolding round_half_even_def Let_def by (auto simp: floor_le_iff)

lemma round_half_even_ge: "of_int m \<le> y \<Longrightarrow> m \<le> round_half_even y"
  unfolding round_half_even_def Let_def by (auto simp: le_floor_iff) linarith+

lemma round_double_of_int: "round_double (of_int m) = of_int m"
proof -
  have "of_int m * 2 ^ k = (of_int (m * 2 ^ k) :: real)" for k by simp
  then show ?thesis
    unfolding round_double_def Let_def by (simp only: round_half_even_of_int) simp
qed

lemma round_double_le:
  assumes "x \<le> of_int m"
  shows "round_double x \<le> of_int m"
proof -
  define k where "k = quantum_exp 1074 0 \<bar>x\<bar>"
  have "x * 2 ^ k \<le> of_int (m * 2 ^ k)" using assms by simp
  then have "round_half_even (x * 2 ^ k) \<le> m * 2 ^ k" by (rule round_half_even_le)
  then have "(of_int (round_half_even (x * 2 ^ k)) :: real) \<le> of_int (m * 2 ^ k)"
    by (simp only: of_int_le_iff)
  then have "of_int (round_half_even (x * 2 ^ k)) / 2 ^ k \<le> (of_int m :: real)"
    by (simp add: divide_le_eq)
  then show ?thesis by (simp add: round_double_def k_def Let_def)
qed

lemma round_double_ge:
  assumes "of_int m \<le> x"
  shows "of_int m \<le> round_double x"
proof -
  define k where "k = quantum_exp 1074 0 \<bar>x\<bar>"
  have "of_int (m * 2 ^ k) \<le> x * 2 ^ k" using assms by simp
  then have "m * 2 ^ k \<le> round_half_even (x * 2 ^ k)" by (rule round_half_even_ge)
  then have "(of_int (m * 2 ^ k) :: real) \<le> of_int (round_half_even (x * 2 ^ k))"
    by (simp only: of_int_le_iff)
  then have "(of_int m :: real) \<le> of_int (round_half_even (x * 2 ^ k)) / 2 ^ k"
    by (simp add: le_divide_eq)
  then show ?thesis by (simp add: round_double_def k_def Let_def)
qed

lemma round_double_floor:
  "\<lfloor>x\<rfloor> \<le> \<lfloor>round_double x\<rfloor>" "\<lfloor>round_double x\<rfloor> \<le> \<lceil>x\<rceil>"
proof -
  have "of_int \<lfloor>x\<rfloor> \<le> round_double x" by (rule round_double_ge) simp
  then show "\<lfloor>x\<rfloor> \<le> \<lfloor>round_double x\<rfloor>" by (simp add: le_floor_iff)
  have "round_double x \<le> of_int \<lceil>x\<rceil>" by (rule round_double_le) simp
  then show "\<lfloor>round_double x\<rfloor> \<le> \<lceil>x\<rceil>" by (simp add: floor_le_iff)
qed

lemma round_double_numeral: "round_double (numeral w) = numeral w"
  using round_double_of_int [of "numeral w"] by simp

lemma round_double_of_nat: "round_double (real n) = real n"
  using round_double_of_int [of "int n"] by simp

lemma round_double_0: "round_double 0 = 0" and round_double_1: "round_double 1 = 1"
  using round_double_of_int [of 0] round_double_of_int [of 1] by simp_all

lemma py_int_count:
  assumes "0 < p" "p \<le> 1"
  shows "py_int (round_double (p * real n)) = \<lfloor>round_double (p * real n)\<rfloor>"
    and "0 \<le> \<lfloor>round_double (p * real n)\<rfloor>"
    and "nat \<lfloor>round_double (p * real n)\<rfloor> \<le> n"
    and "slice_index \<lfloor>round_double (p * real n)\<rfloor> n = nat \<lfloor>round_double (p * real n)\<rfloor>"
proof -
  have "of_int 0 \<le> p * real n" using assms by simp
  then have "of_int 0 \<le> round_double (p * real n)" by (rule round_double_ge)
  then have nn: "0 \<le> round_double (p * real n)" by simp
  then show "py_int (round_double (p * real n)) = \<lfloor>round_double (p * real n)\<rfloor>"
    by (simp add: py_int_def)
  show z: "0 \<le> \<lfloor>round_double (p * real n)\<rfloor>" using nn by simp
  have "p * real n \<le> of_int (int n)" using assms by (simp add: mult_left_le_one_le)
  then have "round_double (p * real n) \<le> of_int (int n)" by (rule round_double_le)
  then have "\<lfloor>round_double (p * real n)\<rfloor> \<le> int n" by (simp add: floor_le_iff)
  then show le: "nat \<lfloor>round_double (p * real n)\<rfloor> \<le> n" by simp
  show "slice_index \<lfloor>round_double (p * real n)\<rfloor> n = nat \<lfloor>round_double (p * real n)\<rfloor>"
    using z le by (simp add: slice_index_def)
qed

text \<open>One step of the search of the exponent, for a numeral amount of fuel.\<close>

lemma quantum_exp_numeral:
  "quantum_exp (numeral n) k x =
     (if 2 ^ 52 \<le> x * 2 ^ k then k else quantum_exp (pred_numeral n) (Suc k) x)"
  by (simp add: numeral_eq_Suc)

text \<open>The result in terms of the two reordered matrices.\<close>

lemma labels_by_percentage_rows:
  assumes "0 < p" "p \<le> 1"
    and "take_rows
           (zip (map (\<lambda>i. distances pseudo ! i)
                     (where_index (\<lambda>d. d \<le> threshold pseudo) (distances pseudo)))
                (where_index (\<lambda>d. d \<le> threshold pseudo) (distances pseudo)))
           (argsort (map fst
              (zip (map (\<lambda>i. distances pseudo ! i)
                        (where_index (\<lambda>d. d \<le> threshold pseudo) (distances pseudo)))
                   (where_index (\<lambda>d. d \<le> threshold pseudo) (distances pseudo))))) =
         Inr nsorted"
    and "take_rows
           (zip (map (\<lambda>i. distances pseudo ! i)
                     (where_index (\<lambda>d. d > threshold pseudo) (distances pseudo)))
                (where_index (\<lambda>d. d > threshold pseudo) (distances pseudo)))
           (argsort (map (\<lambda>row. - fst row)
              (zip (map (\<lambda>i. distances pseudo ! i)
                        (where_index (\<lambda>d. d > threshold pseudo) (distances pseudo)))
                   (where_index (\<lambda>d. d > threshold pseudo) (distances pseudo))))) =
         Inr csorted"
  shows "labels_by_percentage argsort pseudo p =
       Inr (map snd (take (nat \<lfloor>round_double (p * real (length nsorted))\<rfloor>) nsorted) @
            map snd (take (nat \<lfloor>round_double (p * real (length csorted))\<rfloor>) csorted),
            replicate (nat \<lfloor>round_double (p * real (length nsorted))\<rfloor>) UNCHANGED @
            replicate (nat \<lfloor>round_double (p * real (length csorted))\<rfloor>) CHANGED)"
  using assms
  by (simp add: labels_by_percentage_def Let_def py_int_count [OF assms(1,2)])

lemma labels_by_percentage_ranked:
  assumes "is_argsort argsort" "0 < p" "p \<le> 1"
  obtains nranked cranked where
    "mset nranked =
       mset (zip (map (\<lambda>i. distances pseudo ! i)
                      (where_index (\<lambda>d. d \<le> threshold pseudo) (distances pseudo)))
                 (where_index (\<lambda>d. d \<le> threshold pseudo) (distances pseudo)))"
    "sorted (map fst nranked)"
    "mset cranked =
       mset (zip (map (\<lambda>i. distances pseudo ! i)
                      (where_index (\<lambda>d. d > threshold pseudo) (distances pseudo)))
                 (where_index (\<lambda>d. d > threshold pseudo) (distances pseudo)))"
    "sorted (map (\<lambda>row. - fst row) cranked)"
    "labels_by_percentage argsort pseudo p =
       Inr (map snd (take (nat \<lfloor>round_double (p * real (length nranked))\<rfloor>) nranked) @
            map snd (take (nat \<lfloor>round_double (p * real (length cranked))\<rfloor>) cranked),
            replicate (nat \<lfloor>round_double (p * real (length nranked))\<rfloor>) UNCHANGED @
            replicate (nat \<lfloor>round_double (p * real (length cranked))\<rfloor>) CHANGED)"
proof -
  let ?d = "distances pseudo"
  let ?N = "where_index (\<lambda>d. d \<le> threshold pseudo) ?d"
  let ?C = "where_index (\<lambda>d. d > threshold pseudo) ?d"
  let ?nm = "zip (map (\<lambda>i. ?d ! i) ?N) ?N"
  let ?cm = "zip (map (\<lambda>i. ?d ! i) ?C) ?C"
  obtain nranked where n: "take_rows ?nm (argsort (map fst ?nm)) = Inr nranked"
    "mset nranked = mset ?nm" "sorted (map fst nranked)"
    using take_rows_argsort [OF assms(1), of ?nm fst] by blast
  obtain cranked where c: "take_rows ?cm (argsort (map (\<lambda>row. - fst row) ?cm)) = Inr cranked"
    "mset cranked = mset ?cm" "sorted (map (\<lambda>row. - fst row) cranked)"
    using take_rows_argsort [OF assms(1), of ?cm "\<lambda>row. - fst row"] by blast
  have "labels_by_percentage argsort pseudo p =
       Inr (map snd (take (nat \<lfloor>round_double (p * real (length nranked))\<rfloor>) nranked) @
            map snd (take (nat \<lfloor>round_double (p * real (length cranked))\<rfloor>) cranked),
            replicate (nat \<lfloor>round_double (p * real (length nranked))\<rfloor>) UNCHANGED @
            replicate (nat \<lfloor>round_double (p * real (length cranked))\<rfloor>) CHANGED)"
    using assms(2,3) n(1) c(1)
    by (simp add: labels_by_percentage_def Let_def py_int_count [OF assms(2,3)])
  then show thesis using that n(2,3) c(2,3) by blast
qed

lemma set_where_index: "set (where_index P xs) = {i. i < length xs \<and> P (xs ! i)}"
  by (auto simp: where_index_def)

lemma distinct_where_index: "distinct (where_index P xs)"
  by (simp add: where_index_def)

lemma length_where_index: "length (where_index P xs) = card {i. i < length xs \<and> P (xs ! i)}"
  using distinct_card [OF distinct_where_index, of P xs] by (simp add: set_where_index)

lemma mset_where_index_split:
  "mset (where_index P xs) + mset (where_index (\<lambda>x. \<not> P x) xs) = mset [0..<length xs]"
  unfolding where_index_def by (simp only: mset_filter multiset_partition [symmetric])

lemma ranked_length:
  assumes "mset ranked = mset (zip (map f idx) idx)"
  shows "length ranked = length idx"
proof -
  have "length ranked = length (zip (map f idx) idx)" using assms by (rule mset_eq_length)
  then show ?thesis by simp
qed

text \<open>The block selected from one class.\<close>

lemma selected_block:
  fixes key :: "real \<times> nat \<Rightarrow> real"
  assumes ranked: "mset ranked = mset (zip (map f idx) idx)"
    and dist: "distinct idx"
    and srt: "sorted (map key ranked)"
  shows "distinct (map snd (take k ranked))"
    and "set (map snd (take k ranked)) \<subseteq> set idx"
    and "sorted (map (\<lambda>i. key (f i, i)) (map snd (take k ranked)))"
    and "\<And>i j. i \<in> set idx \<Longrightarrow> i \<notin> set (map snd (take k ranked)) \<Longrightarrow>
           j \<in> set (map snd (take k ranked)) \<Longrightarrow> key (f j, j) \<le> key (f i, i)"
    and "length idx \<le> k \<Longrightarrow> mset (map snd (take k ranked)) = mset idx"
proof -
  have "mset (map snd ranked) = mset (map snd (zip (map f idx) idx))"
    using ranked by (metis mset_map)
  then have ms: "mset (map snd ranked) = mset idx" by simp
  have "set ranked = set (zip (map f idx) idx)" using ranked by (rule mset_eq_setD)
  then have row: "row = (f (snd row), snd row)" if "row \<in> set ranked" for row
    using that by (auto simp: in_set_zip)
  have len: "length ranked = length idx" using ms by (metis length_map size_mset)
  have "distinct (map snd ranked)" using ms dist by (metis mset_eq_imp_distinct_iff)
  then show "distinct (map snd (take k ranked))"
    by (simp only: take_map [symmetric] distinct_take)
  have "set (map snd ranked) = set idx" using ms by (rule mset_eq_setD)
  moreover have "set (map snd (take k ranked)) \<subseteq> set (map snd ranked)"
    by (simp only: take_map [symmetric] set_take_subset)
  ultimately show "set (map snd (take k ranked)) \<subseteq> set idx" by simp
  have "map (\<lambda>i. key (f i, i)) (map snd (take k ranked)) = map key (take k ranked)"
    using row by (auto dest: in_set_takeD)
  also have "\<dots> = take k (map key ranked)" by (simp add: take_map)
  finally show "sorted (map (\<lambda>i. key (f i, i)) (map snd (take k ranked)))"
    using srt by (simp only: sorted_wrt_take)
  show "key (f j, j) \<le> key (f i, i)"
    if i: "i \<in> set idx" "i \<notin> set (map snd (take k ranked))"
      and j: "j \<in> set (map snd (take k ranked))" for i j
  proof -
    obtain rj where rj: "rj \<in> set (take k ranked)" "j = snd rj" using j by auto
    have "i \<in> set (map snd (take k ranked @ drop k ranked))"
      using i(1) \<open>set (map snd ranked) = set idx\<close> by simp
    then have "i \<in> set (map snd (take k ranked)) \<union> set (map snd (drop k ranked))"
      by (simp only: map_append set_append)
    then have "i \<in> set (map snd (drop k ranked))" using i(2) by blast
    then obtain ri where ri: "ri \<in> set (drop k ranked)" "i = snd ri" by auto
    have "sorted (map key (take k ranked) @ map key (drop k ranked))"
      using srt by (simp only: map_append [symmetric] append_take_drop_id)
    then have "key rj \<le> key ri" using rj(1) ri(1) by (auto simp: sorted_append)
    moreover have "rj = (f j, j)" using row [of rj] rj by (auto dest: in_set_takeD)
    moreover have "ri = (f i, i)" using row [of ri] ri by (auto dest: in_set_dropD)
    ultimately show ?thesis by simp
  qed
  show "mset (map snd (take k ranked)) = mset idx" if "length idx \<le> k"
    using that len ms by simp
qed

lemma labels_by_percentage_blocks:
  assumes "is_argsort argsort" "0 < p" "p \<le> 1"
  obtains (blocks) ns cs where
    "labels_by_percentage argsort pseudo p =
       Inr (ns @ cs, replicate (length ns) UNCHANGED @ replicate (length cs) CHANGED)"
    "length ns = nat \<lfloor>round_double (p * real (card {i. i < length (distances pseudo) \<and>
                                          distances pseudo ! i \<le> threshold pseudo}))\<rfloor>"
    "length cs = nat \<lfloor>round_double (p * real (card {i. i < length (distances pseudo) \<and>
                                          threshold pseudo < distances pseudo ! i}))\<rfloor>"
    "distinct ns" "distinct cs"
    "set ns \<subseteq> {i. i < length (distances pseudo) \<and> distances pseudo ! i \<le> threshold pseudo}"
    "set cs \<subseteq> {i. i < length (distances pseudo) \<and> threshold pseudo < distances pseudo ! i}"
    "sorted (map (\<lambda>i. distances pseudo ! i) ns)"
    "sorted (map (\<lambda>i. - (distances pseudo ! i)) cs)"
    "\<And>i j. i < length (distances pseudo) \<Longrightarrow> distances pseudo ! i \<le> threshold pseudo \<Longrightarrow>
        i \<notin> set ns \<Longrightarrow> j \<in> set ns \<Longrightarrow> distances pseudo ! j \<le> distances pseudo ! i"
    "\<And>i j. i < length (distances pseudo) \<Longrightarrow> threshold pseudo < distances pseudo ! i \<Longrightarrow>
        i \<notin> set cs \<Longrightarrow> j \<in> set cs \<Longrightarrow> distances pseudo ! i \<le> distances pseudo ! j"
    "p = 1 \<Longrightarrow> mset ns = mset (where_index (\<lambda>d. d \<le> threshold pseudo) (distances pseudo)) \<and>
              mset cs = mset (where_index (\<lambda>d. d > threshold pseudo) (distances pseudo))"
proof -
  let ?d = "distances pseudo"
  let ?t = "threshold pseudo"
  let ?N = "where_index (\<lambda>d. d \<le> ?t) ?d"
  let ?C = "where_index (\<lambda>d. d > ?t) ?d"
  obtain nranked cranked where
    n: "mset nranked = mset (zip (map (\<lambda>i. ?d ! i) ?N) ?N)" "sorted (map fst nranked)" and
    c: "mset cranked = mset (zip (map (\<lambda>i. ?d ! i) ?C) ?C)"
       "sorted (map (\<lambda>row. - fst row) cranked)" and
    res: "labels_by_percentage argsort pseudo p =
       Inr (map snd (take (nat \<lfloor>round_double (p * real (length nranked))\<rfloor>) nranked) @
            map snd (take (nat \<lfloor>round_double (p * real (length cranked))\<rfloor>) cranked),
            replicate (nat \<lfloor>round_double (p * real (length nranked))\<rfloor>) UNCHANGED @
            replicate (nat \<lfloor>round_double (p * real (length cranked))\<rfloor>) CHANGED)"
    using labels_by_percentage_ranked [OF assms, of pseudo] by blast
  let ?kn = "nat \<lfloor>round_double (p * real (length nranked))\<rfloor>"
  let ?kc = "nat \<lfloor>round_double (p * real (length cranked))\<rfloor>"
  let ?ns = "map snd (take ?kn nranked)"
  let ?cs = "map snd (take ?kc cranked)"
  note bn = selected_block [where k = "?kn", OF n(1) distinct_where_index n(2)]
  note bc = selected_block [where k = "?kc", OF c(1) distinct_where_index c(2)]
  note rn = ranked_length [OF n(1)]
  note rc = ranked_length [OF c(1)]
  have ln: "length ?ns = ?kn" using py_int_count(3) [OF assms(2,3), of "length nranked"] by simp
  have lc: "length ?cs = ?kc" using py_int_count(3) [OF assms(2,3), of "length cranked"] by simp
  show thesis
  proof (rule that [of ?ns ?cs])
    show "labels_by_percentage argsort pseudo p =
       Inr (?ns @ ?cs, replicate (length ?ns) UNCHANGED @ replicate (length ?cs) CHANGED)"
      using res by (simp only: ln lc)
    show "length ?ns = nat \<lfloor>round_double (p * real (card {i. i < length ?d \<and> ?d ! i \<le> ?t}))\<rfloor>"
      using ln by (simp only: rn length_where_index)
    show "length ?cs = nat \<lfloor>round_double (p * real (card {i. i < length ?d \<and> ?t < ?d ! i}))\<rfloor>"
      using lc by (simp only: rc length_where_index)
    show "distinct ?ns" by (rule bn(1))
    show "distinct ?cs" by (rule bc(1))
    show "set ?ns \<subseteq> {i. i < length ?d \<and> ?d ! i \<le> ?t}"
      using bn(2) by (simp only: set_where_index)
    show "set ?cs \<subseteq> {i. i < length ?d \<and> ?t < ?d ! i}"
      using bc(2) by (simp only: set_where_index)
    show "sorted (map (\<lambda>i. ?d ! i) ?ns)" using bn(3) by (simp only: fst_conv)
    show "sorted (map (\<lambda>i. - (?d ! i)) ?cs)" using bc(3) by (simp only: fst_conv)
    show "?d ! j \<le> ?d ! i"
      if "i < length ?d" "?d ! i \<le> ?t" "i \<notin> set ?ns" "j \<in> set ?ns" for i j
    proof -
      have "i \<in> set ?N" using that(1,2) by (simp add: set_where_index)
      from bn(4) [OF this that(3,4)] show ?thesis by simp
    qed
    show "?d ! i \<le> ?d ! j"
      if "i < length ?d" "?t < ?d ! i" "i \<notin> set ?cs" "j \<in> set ?cs" for i j
    proof -
      have "i \<in> set ?C" using that(1,2) by (simp add: set_where_index)
      from bc(4) [OF this that(3,4)] show ?thesis by simp
    qed
    show "mset ?ns = mset ?N \<and> mset ?cs = mset ?C" if "p = 1"
    proof -
      have "length ?N \<le> ?kn" "length ?C \<le> ?kc"
        using that rn rc by (simp_all add: round_double_of_nat)
      then show ?thesis using bn(5) bc(5) by blast
    qed
  qed
qed

lemma is_argsort_stable_argsort: "is_argsort stable_argsort"
  unfolding is_argsort_def
proof (intro allI conjI)
  fix keys :: "real list"
  let ?rows = "sort_key fst (zip keys [0..<length keys])"
  have "mset (map snd ?rows) = mset (map snd (zip keys [0..<length keys]))"
    by (simp only: mset_map mset_sort)
  then show "mset (stable_argsort keys) = mset [0..<length keys]"
    by (simp add: stable_argsort_def)
  have "fst row = keys ! snd row" if "row \<in> set ?rows" for row
    using that by (auto simp: in_set_zip)
  then have "map (\<lambda>i. keys ! i) (map snd ?rows) = map fst ?rows" by simp
  moreover have "sorted (map fst ?rows)" by (rule sorted_sort_key)
  ultimately show "sorted (map (\<lambda>i. keys ! i) (stable_argsort keys))"
    by (simp only: stable_argsort_def)
qed

lemma labels_match_threshold:
  assumes "set ns \<subseteq> {i. i < length ds \<and> ds ! i \<le> t}"
    and "set cs \<subseteq> {i. i < length ds \<and> t < ds ! i}"
  shows "replicate (length ns) UNCHANGED @ replicate (length cs) CHANGED =
         map (\<lambda>i. where_greater ds t ! i) (ns @ cs)"
proof -
  have "map (\<lambda>i. where_greater ds t ! i) ns = map (\<lambda>i. UNCHANGED) ns"
    using assms(1) by (intro map_cong) (auto simp: where_greater_def)
  moreover have "map (\<lambda>i. where_greater ds t ! i) cs = map (\<lambda>i. CHANGED) cs"
    using assms(2) by (intro map_cong) (auto simp: where_greater_def)
  ultimately show ?thesis by (simp add: map_replicate_const)
qed

text \<open>
  C4, as amended. For a percentage in \<open>]0, 1]\<close>, \<^verbatim>\<open>labels_by_percentage\<close> returns
  \<^verbatim>\<open>int(percentage*n)\<close> positions of the \<open>UNCHANGED\<close> class, \<open>n\<close> being the number of
  positions with distance \<open>\<le>\<close> threshold, followed by \<^verbatim>\<open>int(percentage*m)\<close> positions of
  the \<open>CHANGED\<close> class, \<open>m\<close> being the number of positions with distance \<open>>\<close> threshold,
  where the products are double products, rounded to the nearest double. Each number is
  therefore \<open>\<lfloor>percentage \<times> size\<rfloor>\<close>, or \<open>\<lceil>percentage \<times> size\<rceil>\<close> when the product rounds up
  to that whole number, and it is exactly \<open>percentage \<times> size\<close> when that is a whole number.
  The first block is in ascending and the second in descending order of distance, and the
  labels are the matching run of \<open>UNCHANGED\<close> followed by the run of \<open>CHANGED\<close>. The
  blocks hold the most confident positions: an unselected position of a class is no closer
  to its extreme than a selected one. With percentage \<open>0.5\<close> over 10 and 10 candidates the
  result has 5 of each, 10 in total.
\<close>

theorem labels_by_percentage_stratified:
  assumes "is_argsort argsort" "0 < p" "p \<le> 1"
  shows "\<exists>ns cs.
    labels_by_percentage argsort pseudo p =
      Inr (ns @ cs, replicate (length ns) UNCHANGED @ replicate (length cs) CHANGED) \<and>
    length ns = nat \<lfloor>round_double (p * real (card {i. i < length (distances pseudo) \<and>
                                        distances pseudo ! i \<le> threshold pseudo}))\<rfloor> \<and>
    length cs = nat \<lfloor>round_double (p * real (card {i. i < length (distances pseudo) \<and>
                                        distances pseudo ! i > threshold pseudo}))\<rfloor> \<and>
    nat \<lfloor>p * real (card {i. i < length (distances pseudo) \<and>
                            distances pseudo ! i \<le> threshold pseudo})\<rfloor> \<le> length ns \<and>
    length ns \<le> nat \<lceil>p * real (card {i. i < length (distances pseudo) \<and>
                            distances pseudo ! i \<le> threshold pseudo})\<rceil> \<and>
    nat \<lfloor>p * real (card {i. i < length (distances pseudo) \<and>
                            distances pseudo ! i > threshold pseudo})\<rfloor> \<le> length cs \<and>
    length cs \<le> nat \<lceil>p * real (card {i. i < length (distances pseudo) \<and>
                            distances pseudo ! i > threshold pseudo})\<rceil> \<and>
    (\<forall>k. p * real (card {i. i < length (distances pseudo) \<and>
                            distances pseudo ! i \<le> threshold pseudo}) = real k
         \<longrightarrow> length ns = k) \<and>
    (\<forall>k. p * real (card {i. i < length (distances pseudo) \<and>
                            distances pseudo ! i > threshold pseudo}) = real k
         \<longrightarrow> length cs = k) \<and>
    (\<forall>i \<in> set ns. i < length (distances pseudo) \<and> distances pseudo ! i \<le> threshold pseudo) \<and>
    (\<forall>i \<in> set cs. i < length (distances pseudo) \<and> distances pseudo ! i > threshold pseudo) \<and>
    sorted (map (\<lambda>i. distances pseudo ! i) ns) \<and>
    sorted_wrt (\<lambda>x y. x \<ge> y) (map (\<lambda>i. distances pseudo ! i) cs) \<and>
    (\<forall>i j. i < length (distances pseudo) \<and> distances pseudo ! i \<le> threshold pseudo \<and>
           i \<notin> set ns \<and> j \<in> set ns \<longrightarrow> distances pseudo ! j \<le> distances pseudo ! i) \<and>
    (\<forall>i j. i < length (distances pseudo) \<and> distances pseudo ! i > threshold pseudo \<and>
           i \<notin> set cs \<and> j \<in> set cs \<longrightarrow> distances pseudo ! i \<le> distances pseudo ! j) \<and>
    (p = 1 / 2 \<and>
     card {i. i < length (distances pseudo) \<and> distances pseudo ! i \<le> threshold pseudo} = 10 \<and>
     card {i. i < length (distances pseudo) \<and> distances pseudo ! i > threshold pseudo} = 10
     \<longrightarrow> length ns = 5 \<and> length cs = 5 \<and> length (ns @ cs) = 10)"
proof -
  let ?d = "distances pseudo"
  let ?t = "threshold pseudo"
  let ?n = "card {i. i < length ?d \<and> ?d ! i \<le> ?t}"
  let ?m = "card {i. i < length ?d \<and> ?t < ?d ! i}"
  from assms show ?thesis
  proof (cases rule: labels_by_percentage_blocks [where pseudo = pseudo])
    case (blocks ns cs)
    have ln: "length ns = nat \<lfloor>round_double (p * real ?n)\<rfloor>" by (rule blocks(2))
    have lc: "length cs = nat \<lfloor>round_double (p * real ?m)\<rfloor>" by (rule blocks(3))
    have bn: "nat \<lfloor>p * real ?n\<rfloor> \<le> length ns" "length ns \<le> nat \<lceil>p * real ?n\<rceil>"
      unfolding ln using round_double_floor [of "p * real ?n"] by (simp_all add: nat_mono)
    have bc: "nat \<lfloor>p * real ?m\<rfloor> \<le> length cs" "length cs \<le> nat \<lceil>p * real ?m\<rceil>"
      unfolding lc using round_double_floor [of "p * real ?m"] by (simp_all add: nat_mono)
    have wn: "\<forall>k. p * real ?n = real k \<longrightarrow> length ns = k"
      unfolding ln by (simp add: round_double_of_nat)
    have wc: "\<forall>k. p * real ?m = real k \<longrightarrow> length cs = k"
      unfolding lc by (simp add: round_double_of_nat)
    have oc': "sorted_wrt (\<lambda>x y. x \<ge> y) (map (\<lambda>i. ?d ! i) cs)"
      using blocks(9) by (simp add: sorted_map sorted_wrt_map)
    have half: "length ns = 5 \<and> length cs = 5 \<and> length (ns @ cs) = 10"
      if "p = 1 / 2" "?n = 10" "?m = 10"
      using ln lc that by (simp add: round_double_numeral)
    have sn: "\<forall>i \<in> set ns. i < length ?d \<and> ?d ! i \<le> ?t" using blocks(6) by blast
    have sc: "\<forall>i \<in> set cs. i < length ?d \<and> ?d ! i > ?t" using blocks(7) by blast
    have tn: "\<forall>i j. i < length ?d \<and> ?d ! i \<le> ?t \<and> i \<notin> set ns \<and> j \<in> set ns
                \<longrightarrow> ?d ! j \<le> ?d ! i"
      using blocks(10) by blast
    have tc: "\<forall>i j. i < length ?d \<and> ?d ! i > ?t \<and> i \<notin> set cs \<and> j \<in> set cs
                \<longrightarrow> ?d ! i \<le> ?d ! j"
      using blocks(11) by blast
    show ?thesis
      apply (rule exI [of _ ns], rule exI [of _ cs])
      using blocks(1,8) ln lc bn bc wn wc sn sc oc' tn tc half
      by (intro conjI) (assumption | blast)+
  qed
qed

theorem labels_by_percentage_stratified_witness:
  "\<exists>ns cs.
     labels_by_percentage stable_argsort
       \<lparr>distances = [1 / 20, 1 / 10, 3 / 20, 1 / 5, 1 / 4, 3 / 10, 7 / 20, 2 / 5, 9 / 20, 1 / 2,
                     11 / 20, 3 / 5, 13 / 20, 7 / 10, 3 / 4, 4 / 5, 17 / 20, 9 / 10, 19 / 20, 1],
        threshold = 1 / 2, shape = (4, 5)\<rparr> (1 / 2) =
       Inr (ns @ cs, replicate (length ns) UNCHANGED @ replicate (length cs) CHANGED) \<and>
     length ns = 5 \<and> length cs = 5 \<and> length (ns @ cs) = 10"
proof -
  let ?pseudo = "\<lparr>distances = [1 / 20, 1 / 10, 3 / 20, 1 / 5, 1 / 4, 3 / 10, 7 / 20, 2 / 5, 9 / 20, 1 / 2,
                     11 / 20, 3 / 5, 13 / 20, 7 / 10, 3 / 4, 4 / 5, 17 / 20, 9 / 10, 19 / 20, 1],
        threshold = 1 / 2, shape = (4, 5)\<rparr>"
  let ?d = "distances ?pseudo"
  let ?t = "threshold ?pseudo"
  have p: "(0::real) < 1 / 2" "(1 / 2 :: real) \<le> 1" by simp_all
  have N: "length (where_index (\<lambda>d. d \<le> ?t) ?d) = 10" by code_simp
  have C: "length (where_index (\<lambda>d. d > ?t) ?d) = 10" by code_simp
  have cN: "card {i. i < length ?d \<and> ?d ! i \<le> ?t} = 10"
    using length_where_index [of "\<lambda>d. d \<le> ?t" ?d] by (simp only: N)
  have cC: "card {i. i < length ?d \<and> ?d ! i > ?t} = 10"
    using length_where_index [of "\<lambda>d. d > ?t" ?d] by (simp only: C)
  from labels_by_percentage_stratified [OF is_argsort_stable_argsort p, of ?pseudo]
  obtain ns cs where
    res: "labels_by_percentage stable_argsort ?pseudo (1 / 2) =
       Inr (ns @ cs, replicate (length ns) UNCHANGED @ replicate (length cs) CHANGED)" and
    half: "(1 / 2 :: real) = 1 / 2 \<and> card {i. i < length ?d \<and> ?d ! i \<le> ?t} = 10 \<and>
       card {i. i < length ?d \<and> ?d ! i > ?t} = 10
       \<longrightarrow> length ns = 5 \<and> length cs = 5 \<and> length (ns @ cs) = 10"
    by blast
  from half cN cC have "length ns = 5 \<and> length cs = 5 \<and> length (ns @ cs) = 10" by blast
  with res show ?thesis by blast
qed

text \<open>
  The size of a block is not always the floor of the exact product: the double nearest to
  \<open>0.6\<close> is \<open>5404319552844595 / 2\<^sup>5\<^sup>3\<close>, below \<open>0.6\<close>, and its product with 5 rounds to the
  double 3, so that three of five \<open>UNCHANGED\<close> positions are returned and not two.
\<close>

theorem labels_by_percentage_stratified_counterexample:
  "labels_by_percentage stable_argsort
     \<lparr>distances = [1 / 8, 1 / 4, 3 / 8, 1 / 2, 5 / 8], threshold = 3 / 4, shape = (1, 5)\<rparr>
     (5404319552844595 / 9007199254740992) =
     Inr ([0, 1, 2], [UNCHANGED, UNCHANGED, UNCHANGED]) \<and>
   nat \<lfloor>5404319552844595 / 9007199254740992 * 5 :: real\<rfloor> = 2"
proof -
  let ?pseudo =
    "\<lparr>distances = [1 / 8, 1 / 4, 3 / 8, 1 / 2, 5 / 8], threshold = 3 / 4, shape = (1, 5)\<rparr>"
  have p: "(0::real) < 5404319552844595 / 9007199254740992"
    "(5404319552844595 / 9007199254740992 :: real) \<le> 1" by simp_all
  have n: "take_rows
           (zip (map (\<lambda>i. distances ?pseudo ! i)
                     (where_index (\<lambda>d. d \<le> threshold ?pseudo) (distances ?pseudo)))
                (where_index (\<lambda>d. d \<le> threshold ?pseudo) (distances ?pseudo)))
           (stable_argsort (map fst
              (zip (map (\<lambda>i. distances ?pseudo ! i)
                        (where_index (\<lambda>d. d \<le> threshold ?pseudo) (distances ?pseudo)))
                   (where_index (\<lambda>d. d \<le> threshold ?pseudo) (distances ?pseudo))))) =
         Inr [(1 / 8, 0), (1 / 4, 1), (3 / 8, 2), (1 / 2, 3), (5 / 8, 4)]"
    by code_simp
  have c: "take_rows
           (zip (map (\<lambda>i. distances ?pseudo ! i)
                     (where_index (\<lambda>d. d > threshold ?pseudo) (distances ?pseudo)))
                (where_index (\<lambda>d. d > threshold ?pseudo) (distances ?pseudo)))
           (stable_argsort (map (\<lambda>row. - fst row)
              (zip (map (\<lambda>i. distances ?pseudo ! i)
                        (where_index (\<lambda>d. d > threshold ?pseudo) (distances ?pseudo)))
                   (where_index (\<lambda>d. d > threshold ?pseudo) (distances ?pseudo))))) =
         Inr []"
    by code_simp
  have q: "quantum_exp 1074 0 (27021597764222975 / 9007199254740992) = 51"
    by (simp add: quantum_exp_numeral)
  have r: "round_double (27021597764222975 / 9007199254740992) = 3"
    by (simp add: round_double_def q round_half_even_def Let_def)
  have "labels_by_percentage stable_argsort ?pseudo (5404319552844595 / 9007199254740992) =
     Inr ([0, 1, 2], [UNCHANGED, UNCHANGED, UNCHANGED])"
    unfolding labels_by_percentage_rows [OF p n c]
    by (simp add: r round_double_0 numeral_3_eq_3)
  then show ?thesis by simp
qed

text \<open>
  C10. With percentage 1, \<^verbatim>\<open>labels_by_percentage\<close> returns every position of the
  distance array exactly once, the whole \<open>UNCHANGED\<close> class followed by the whole
  \<open>CHANGED\<close> class, so the result is as long as the array, and each returned label is
  the label thresholding gives the distance at the returned position.
\<close>

theorem labels_by_percentage_whole_image:
  assumes "is_argsort argsort"
  shows "\<exists>ns cs.
    labels_by_percentage argsort pseudo 1 =
      Inr (ns @ cs, map (\<lambda>i. where_greater (distances pseudo) (threshold pseudo) ! i) (ns @ cs)) \<and>
    mset (ns @ cs) = mset [0..<length (distances pseudo)] \<and>
    distinct (ns @ cs) \<and>
    length (ns @ cs) = length (distances pseudo) \<and>
    set ns = {i. i < length (distances pseudo) \<and> distances pseudo ! i \<le> threshold pseudo} \<and>
    set cs = {i. i < length (distances pseudo) \<and> distances pseudo ! i > threshold pseudo}"
proof -
  let ?d = "distances pseudo"
  let ?t = "threshold pseudo"
  have p: "(0::real) < 1" "(1::real) \<le> 1" by simp_all
  from assms p show ?thesis
  proof (cases rule: labels_by_percentage_blocks [where pseudo = pseudo])
    case (blocks ns cs)
    have full: "mset ns = mset (where_index (\<lambda>d. d \<le> ?t) ?d)"
      "mset cs = mset (where_index (\<lambda>d. d > ?t) ?d)"
      using blocks(12) by simp_all
    have "where_index (\<lambda>d. d > ?t) ?d = where_index (\<lambda>d. \<not> d \<le> ?t) ?d"
      by (simp add: not_le)
    then have ms: "mset (ns @ cs) = mset [0..<length ?d]"
      using full mset_where_index_split [of "\<lambda>d. d \<le> ?t" ?d] by simp
    have di: "distinct (ns @ cs)"
      using mset_eq_imp_distinct_iff [OF ms] by simp
    have le: "length (ns @ cs) = length ?d"
      using mset_eq_length [OF ms] by simp
    have sn: "set ns = {i. i < length ?d \<and> ?d ! i \<le> ?t}"
      using mset_eq_setD [OF full(1)] by (simp only: set_where_index)
    have sc: "set cs = {i. i < length ?d \<and> ?d ! i > ?t}"
      using mset_eq_setD [OF full(2)] by (simp only: set_where_index)
    have lab: "replicate (length ns) UNCHANGED @ replicate (length cs) CHANGED =
         map (\<lambda>i. where_greater ?d ?t ! i) (ns @ cs)"
      by (rule labels_match_threshold [OF blocks(6,7)])
    show ?thesis
      apply (rule exI [of _ ns], rule exI [of _ cs])
      using blocks(1) ms di le sn sc unfolding lab by (intro conjI) assumption+
  qed
qed

theorem labels_by_percentage_whole_image_witness:
  "\<exists>ns cs.
    labels_by_percentage stable_argsort
       \<lparr>distances = [1 / 10, 1 / 5, 4 / 5, 9 / 10], threshold = 1 / 2, shape = (2, 2)\<rparr> 1 =
      Inr (ns @ cs, map (\<lambda>i. where_greater [1 / 10, 1 / 5, 4 / 5, 9 / 10] (1 / 2) ! i) (ns @ cs)) \<and>
    mset (ns @ cs) = mset [0, 1, 2, 3]"
proof -
  let ?pseudo = "\<lparr>distances = [1 / 10, 1 / 5, 4 / 5, 9 / 10], threshold = 1 / 2, shape = (2, 2)\<rparr>"
  from labels_by_percentage_whole_image [OF is_argsort_stable_argsort, of ?pseudo]
  obtain ns cs where
    res: "labels_by_percentage stable_argsort ?pseudo 1 =
      Inr (ns @ cs, map (\<lambda>i. where_greater (distances ?pseudo) (threshold ?pseudo) ! i) (ns @ cs))"
    and all: "mset (ns @ cs) = mset [0..<length (distances ?pseudo)]"
    by blast
  have e: "[0..<length (distances ?pseudo)] = [0, 1, 2, 3]" by code_simp
  show ?thesis
    using res all unfolding e by (simp only: pseudo_dict.select_convs) blast
qed

text \<open>
  C1, as amended. For the record with distances \<open>[0.1, 0.2, 0.8, 0.9]\<close>, threshold
  \<open>0.5\<close> and shape \<open>(2, 2)\<close>, building the labels yields
  \<open>[UNCHANGED, UNCHANGED, CHANGED, CHANGED]\<close>, and \<^verbatim>\<open>labels_by_percentage\<close> with
  percentage \<open>0.5\<close> returns the positions \<open>[0, 3]\<close>, the \<open>UNCHANGED\<close> pixel closest
  to 0 followed by the farthest \<open>CHANGED\<close> pixel, which is the one at position 3 with
  distance \<open>0.9\<close>, with the labels \<open>[UNCHANGED, CHANGED]\<close>.
\<close>

theorem end_to_end_scenario:
  assumes "is_argsort argsort"
  shows "where_greater [1 / 10, 1 / 5, 4 / 5, 9 / 10] (1 / 2) =
           [UNCHANGED, UNCHANGED, CHANGED, CHANGED] \<and>
         labels_by_percentage argsort
           \<lparr>distances = [1 / 10, 1 / 5, 4 / 5, 9 / 10], threshold = 1 / 2, shape = (2, 2)\<rparr> (1 / 2) =
           Inr ([0, 3], [UNCHANGED, CHANGED])"
proof -
  let ?ds = "[1 / 10, 1 / 5, 4 / 5, 9 / 10] :: real list"
  let ?pseudo = "\<lparr>distances = ?ds, threshold = 1 / 2, shape = (2, 2)\<rparr>"
  let ?d = "distances ?pseudo"
  let ?t = "threshold ?pseudo"
  have p: "(0::real) < 1 / 2" "(1 / 2 :: real) \<le> 1" by simp_all
  have N: "where_index (\<lambda>d. d \<le> ?t) ?d = [0, 1]"
    by (simp add: where_index_def upt_rec)
  have C: "where_index (\<lambda>d. d > ?t) ?d = [2, 3]"
    by (simp add: where_index_def upt_rec)
  have cN: "card {i. i < length ?d \<and> ?d ! i \<le> ?t} = 2"
    using length_where_index [of "\<lambda>d. d \<le> ?t" ?d] by (simp only: N list.size)
  have cC: "card {i. i < length ?d \<and> ?t < ?d ! i} = 2"
    using length_where_index [of "\<lambda>d. d > ?t" ?d] by (simp only: C list.size)
  have sN: "{i. i < length ?d \<and> ?d ! i \<le> ?t} = {0, 1}"
    using set_where_index [of "\<lambda>d. d \<le> ?t" ?d] by (simp only: N list.set)
  have sC: "{i. i < length ?d \<and> ?t < ?d ! i} = {2, 3}"
    using set_where_index [of "\<lambda>d. d > ?t" ?d] by (simp only: C list.set)
  have d0: "?d ! 0 = 1 / 10" and d1: "?d ! 1 = 1 / 5" and d2: "?d ! 2 = 4 / 5" and d3: "?d ! 3 = 9 / 10"
    by simp_all
  have l4: "length ?d = 4" by simp
  from assms p have "labels_by_percentage argsort ?pseudo (1 / 2) = Inr ([0, 3], [UNCHANGED, CHANGED])"
  proof (cases rule: labels_by_percentage_blocks [where pseudo = ?pseudo])
    case (blocks ns cs)
    have ln: "length ns = 1" unfolding blocks(2) cN by (simp add: round_double_1)
    have lc: "length cs = 1" unfolding blocks(3) cC by (simp add: round_double_1)
    obtain a where a: "ns = [a]" using ln by (cases ns) auto
    obtain b where b: "cs = [b]" using lc by (cases cs) auto
    have "set ns \<subseteq> {0, 1}" using blocks(6) unfolding sN .
    then have a01: "a = 0 \<or> a = 1" using a by simp
    have "a \<noteq> 1"
    proof
      assume a1: "a = 1"
      have "?d ! 1 \<le> ?d ! 0"
      proof (rule blocks(10))
        show "0 < length ?d" unfolding l4 by simp
        show "?d ! 0 \<le> ?t" unfolding d0 by simp
        show "0 \<notin> set ns" unfolding a a1 by simp
        show "1 \<in> set ns" unfolding a a1 by simp
      qed
      then show False unfolding d0 d1 by simp
    qed
    then have a0: "a = 0" using a01 by blast
    have "set cs \<subseteq> {2, 3}" using blocks(7) unfolding sC .
    then have b23: "b = 2 \<or> b = 3" using b by simp
    have "b \<noteq> 2"
    proof
      assume b2: "b = 2"
      have "?d ! 3 \<le> ?d ! 2"
      proof (rule blocks(11))
        show "3 < length ?d" unfolding l4 by simp
        show "?t < ?d ! 3" unfolding d3 by simp
        show "3 \<notin> set cs" unfolding b b2 by simp
        show "2 \<in> set cs" unfolding b b2 by simp
      qed
      then show False unfolding d2 d3 by simp
    qed
    then have b3: "b = 3" using b23 by blast
    show ?thesis unfolding blocks(1) a b a0 b3 by simp
  qed
  then show ?thesis by (simp add: where_greater_def)
qed

theorem end_to_end_scenario_witness:
  "where_greater [1 / 10, 1 / 5, 4 / 5, 9 / 10] (1 / 2) =
           [UNCHANGED, UNCHANGED, CHANGED, CHANGED] \<and>
   labels_by_percentage stable_argsort
      \<lparr>distances = [1 / 10, 1 / 5, 4 / 5, 9 / 10], threshold = 1 / 2, shape = (2, 2)\<rparr> (1 / 2) =
      Inr ([0, 3], [UNCHANGED, CHANGED])"
  by (rule end_to_end_scenario [OF is_argsort_stable_argsort])

text \<open>
  The positions \<open>[0, 2]\<close> of the scenario as first worded are not what the function
  returns: position 2 holds the \<open>CHANGED\<close> pixel nearest to the threshold.
\<close>

theorem end_to_end_scenario_counterexample:
  "labels_by_percentage stable_argsort
      \<lparr>distances = [1 / 10, 1 / 5, 4 / 5, 9 / 10], threshold = 1 / 2, shape = (2, 2)\<rparr> (1 / 2) \<noteq>
      Inr ([0, 2], [UNCHANGED, CHANGED])"
  by code_simp

subsection \<open>Selection by neighborhood\<close>

lemma select_cols_eq:
  "select_cols g radius row cols (sd, ll) =
     (sd @ map (\<lambda>col. row * ncols g + col) (filter (unanimous g radius row) cols),
      ll @ map (\<lambda>col. cell g row col) (filter (unanimous g radius row) cols))"
  by (induction cols arbitrary: sd ll) (simp_all add: unanimous_def Let_def)

lemma select_rows_eq:
  "select_rows g radius rows (sd, ll) =
     (sd @ concat (map (\<lambda>row. map (\<lambda>col. row * ncols g + col)
                                  (filter (unanimous g radius row) [0..<ncols g])) rows),
      ll @ concat (map (\<lambda>row. map (\<lambda>col. cell g row col)
                                  (filter (unanimous g radius row) [0..<ncols g])) rows))"
  by (induction rows arbitrary: sd ll) (simp_all add: select_cols_eq)

lemma row_block_filter:
  "map (\<lambda>i. f (i div w) (i mod w)) (filter (\<lambda>i. P (i div w) (i mod w)) [h * w ..< h * w + w]) =
     map (f h) (filter (P h) [0..<w])"
proof -
  have blk: "[h * w ..< h * w + w] = map (\<lambda>c. c + h * w) [0..<w]"
    by (simp only: map_add_upt add.commute [of w])
  have P: "P ((c + h * w) div w) ((c + h * w) mod w) = P h c" if "c < w" for c
    using that by simp
  have f: "f ((c + h * w) div w) ((c + h * w) mod w) = f h c" if "c < w" for c
    using that by simp
  have "filter ((\<lambda>i. P (i div w) (i mod w)) \<circ> (\<lambda>c. c + h * w)) [0..<w] = filter (P h) [0..<w]"
    by (rule filter_cong) (simp_all add: P)
  moreover have "map ((\<lambda>i. f (i div w) (i mod w)) \<circ> (\<lambda>c. c + h * w)) (filter (P h) [0..<w]) =
      map (f h) (filter (P h) [0..<w])"
    by (rule map_cong) (simp_all add: f)
  ultimately show ?thesis by (simp only: blk filter_map map_map)
qed

lemma row_major_filter_concat:
  "concat (map (\<lambda>row. map (f row) (filter (P row) [0..<w])) [0..<h]) =
     map (\<lambda>i. f (i div w) (i mod w)) (filter (\<lambda>i. P (i div w) (i mod w)) [0..<h * w])"
proof (induction h)
  case 0
  then show ?case by simp
next
  case (Suc h)
  have "[0..<Suc h * w] = [0..<h * w + w]" by (simp add: add.commute)
  also have "\<dots> = [0..<h * w] @ [h * w ..< h * w + w]"
    by (rule upt_add_eq_append) simp
  finally have "map (\<lambda>i. f (i div w) (i mod w))
        (filter (\<lambda>i. P (i div w) (i mod w)) [0..<Suc h * w]) =
      map (\<lambda>i. f (i div w) (i mod w)) (filter (\<lambda>i. P (i div w) (i mod w)) [0..<h * w]) @
      map (f h) (filter (P h) [0..<w])"
    by (simp only: filter_append map_append row_block_filter)
  then show ?case using Suc by simp
qed

lemma length_Counter: "length (Counter xs) = card (set xs)"
proof -
  have "card (set xs) = card (set (map fst (Counter xs)))"
    using keys_Counter [of xs] by simp
  also have "\<dots> = length (map fst (Counter xs))"
    by (rule distinct_card) (rule distinct_Counter)
  finally show ?thesis by simp
qed

lemma unanimous_iff:
  "1 \<le> radius \<Longrightarrow> unanimous g radius row col \<longleftrightarrow> card (set (window_labels g radius row col)) = 1"
  by (simp add: unanimous_def length_most_common length_Counter kernel_cells_window_labels)

lemma select_rows_row_major:
  assumes "1 \<le> radius"
  shows "select_rows g radius [0..<nrows g] ([], []) =
     (filter (\<lambda>i. card (set (window_labels g radius (i div ncols g) (i mod ncols g))) = 1)
             [0..<nrows g * ncols g],
      map (\<lambda>i. cell g (i div ncols g) (i mod ncols g))
          (filter (\<lambda>i. card (set (window_labels g radius (i div ncols g) (i mod ncols g))) = 1)
                  [0..<nrows g * ncols g]))"
proof -
  let ?sel = "filter (\<lambda>i. unanimous g radius (i div ncols g) (i mod ncols g)) [0..<nrows g * ncols g]"
  have "map (\<lambda>i. (i div ncols g) * ncols g + i mod ncols g) ?sel = ?sel"
    by (simp add: map_idI)
  then show ?thesis
    by (simp add: select_rows_eq row_major_filter_concat unanimous_iff [OF assms])
qed

lemma labels_by_neighborhood_eq:
  assumes "1 \<le> radius"
  shows "labels_by_neighborhood pseudo radius =
     (case reshape (where_greater (distances pseudo) (threshold pseudo)) (shape pseudo) of
        Inl e \<Rightarrow> Inl e
      | Inr label_map \<Rightarrow>
     (case spatial_correction label_map 3 of
        Inl e \<Rightarrow> Inl e
      | Inr g \<Rightarrow>
          Inr (filter (\<lambda>i. card (set (window_labels g radius (i div ncols g) (i mod ncols g))) = 1)
                      [0..<nrows g * ncols g],
               map (\<lambda>i. cell g (i div ncols g) (i mod ncols g))
                 (filter (\<lambda>i. card (set (window_labels g radius (i div ncols g) (i mod ncols g))) = 1)
                      [0..<nrows g * ncols g]))))"
proof -
  have len: "length (where_greater (distances pseudo) (threshold pseudo)) = length (distances pseudo)"
    by (simp add: where_greater_def)
  show ?thesis
  proof (cases "length (distances pseudo) = fst (shape pseudo) * snd (shape pseudo)")
    case True
    then show ?thesis
      using assms
      by (simp add: labels_by_neighborhood_def reshape_def len select_rows_row_major
            split: sum.splits)
  next
    case False
    then show ?thesis
      using assms by (simp add: labels_by_neighborhood_def reshape_def len)
  qed
qed

lemma spatial_correction_succeeds:
  assumes "1 \<le> radius"
  shows "\<exists>g'. spatial_correction g radius = Inr g'"
  using spatial_correction_cells [OF assms, of g] by blast

text \<open>
  C2, as amended. For every record and every radius \<open>\<ge> 1\<close>,
  \<^verbatim>\<open>labels_by_neighborhood\<close> equals the composition: build the label map from the
  distances and the stored threshold, reshape it to the shape of the record, apply
  \<^verbatim>\<open>spatial_correction\<close> with its default radius 3, whatever the given radius, then
  select exactly the pixels whose clipped window of the given radius in the corrected map
  holds exactly one distinct label; each selected pixel is returned with its corrected
  label, and the positions are in row-major scan order. (When the distances do not fit the
  shape, both sides are the error of the reshape.)
\<close>

theorem labels_by_neighborhood_composition:
  assumes "1 \<le> radius"
  shows "labels_by_neighborhood pseudo radius = select_by_neighborhood_spec 3 pseudo radius"
  unfolding labels_by_neighborhood_eq [OF assms] select_by_neighborhood_spec_def Let_def ..

theorem labels_by_neighborhood_composition_witness:
  "labels_by_neighborhood
     \<lparr>distances = [1 / 10, 1 / 5, 9 / 10], threshold = 1 / 2, shape = (1, 3)\<rparr> 1 =
   select_by_neighborhood_spec 3
     \<lparr>distances = [1 / 10, 1 / 5, 9 / 10], threshold = 1 / 2, shape = (1, 3)\<rparr> 1"
  by (rule labels_by_neighborhood_composition) simp

text \<open>
  With the given radius passed to the correction the composition differs: for radius 1
  the correction would be the identity and keep the \<open>CHANGED\<close> pixel that the radius 3
  of the source smooths away.
\<close>

theorem labels_by_neighborhood_composition_counterexample:
  "labels_by_neighborhood
     \<lparr>distances = [1 / 10, 1 / 5, 9 / 10], threshold = 1 / 2, shape = (1, 3)\<rparr> 1 \<noteq>
   select_by_neighborhood_spec 1
     \<lparr>distances = [1 / 10, 1 / 5, 9 / 10], threshold = 1 / 2, shape = (1, 3)\<rparr> 1"
proof -
  have "labels_by_neighborhood
     \<lparr>distances = [1 / 10, 1 / 5, 9 / 10], threshold = 1 / 2, shape = (1, 3)\<rparr> 1 =
     Inr ([0, 1, 2], [UNCHANGED, UNCHANGED, UNCHANGED])"
    by code_simp
  moreover have "select_by_neighborhood_spec 1
     \<lparr>distances = [1 / 10, 1 / 5, 9 / 10], threshold = 1 / 2, shape = (1, 3)\<rparr> 1 =
     Inr ([0, 1, 2], [UNCHANGED, UNCHANGED, CHANGED])"
    by code_simp
  ultimately show ?thesis by simp
qed

subsection \<open>The invariant of a selection result\<close>

text \<open>
  C6. For valid parameters both selectors return a result whose positions and labels have
  the same length and whose positions are pairwise distinct: \<^verbatim>\<open>labels_by_percentage\<close>
  for a percentage in \<open>]0, 1]\<close>, and \<^verbatim>\<open>labels_by_neighborhood\<close> for a radius \<open>\<ge> 1\<close> and
  a record whose distances fit its shape; and every result \<^verbatim>\<open>labels_by_neighborhood\<close>
  returns has the two properties.
\<close>

theorem selection_result_invariant:
  "(is_argsort argsort \<and> 0 < p \<and> p \<le> 1 \<longrightarrow>
      (\<exists>idx labs. labels_by_percentage argsort pseudo p = Inr (idx, labs) \<and>
                  length idx = length labs \<and> distinct idx)) \<and>
   (1 \<le> radius \<and> length (distances pseudo') = fst (shape pseudo') * snd (shape pseudo') \<longrightarrow>
      (\<exists>idx labs. labels_by_neighborhood pseudo' radius = Inr (idx, labs) \<and>
                  length idx = length labs \<and> distinct idx)) \<and>
   (labels_by_neighborhood pseudo' radius = Inr (idx', labs') \<longrightarrow>
      length idx' = length labs' \<and> distinct idx')"
proof -
  have inv: "length idx = length labs \<and> distinct idx"
    if res: "labels_by_neighborhood pseudo' radius = Inr (idx, labs)" for idx labs
  proof -
    have r: "1 \<le> radius"
    proof (rule ccontr)
      assume "\<not> 1 \<le> radius"
      then show False using res by (simp add: labels_by_neighborhood_def)
    qed
    from res obtain g where
      "idx = filter (\<lambda>i. card (set (window_labels g radius (i div ncols g) (i mod ncols g))) = 1)
                        [0..<nrows g * ncols g]"
      "labs = map (\<lambda>i. cell g (i div ncols g) (i mod ncols g)) idx"
      unfolding labels_by_neighborhood_eq [OF r] by (auto split: sum.splits)
    then show ?thesis by simp
  qed
  have perc: "\<exists>idx labs. labels_by_percentage argsort pseudo p = Inr (idx, labs) \<and>
                  length idx = length labs \<and> distinct idx"
    if "is_argsort argsort" "0 < p" "p \<le> 1"
    using that
  proof (cases rule: labels_by_percentage_blocks [where pseudo = pseudo])
    case (blocks ns cs)
    have "set ns \<inter> set cs = {}" using blocks(6,7) by fastforce
    then have "distinct (ns @ cs)" using blocks(4,5) by simp
    then show ?thesis using blocks(1) by simp
  qed
  have neigh: "\<exists>idx labs. labels_by_neighborhood pseudo' radius = Inr (idx, labs) \<and>
                  length idx = length labs \<and> distinct idx"
    if r: "1 \<le> radius"
      and shp: "length (distances pseudo') = fst (shape pseudo') * snd (shape pseudo')"
  proof -
    obtain lm where lm:
      "reshape (where_greater (distances pseudo') (threshold pseudo')) (shape pseudo') = Inr lm"
      using shp by (simp add: reshape_def where_greater_def)
    obtain g where g: "spatial_correction lm 3 = Inr g"
      using spatial_correction_succeeds [of 3 lm] by auto
    have "\<exists>idx labs. labels_by_neighborhood pseudo' radius = Inr (idx, labs)"
      by (simp add: labels_by_neighborhood_eq [OF r] lm g)
    then show ?thesis using inv by blast
  qed
  show ?thesis using inv perc neigh by blast
qed

theorem selection_result_invariant_witness:
  "(\<exists>idx labs. labels_by_percentage stable_argsort
       \<lparr>distances = [1 / 10, 1 / 5, 4 / 5, 9 / 10], threshold = 1 / 2, shape = (2, 2)\<rparr> (1 / 2) =
       Inr (idx, labs) \<and> length idx = length labs \<and> distinct idx) \<and>
   (\<exists>idx labs. labels_by_neighborhood
       \<lparr>distances = [1 / 10, 1 / 5, 4 / 5, 9 / 10], threshold = 1 / 2, shape = (2, 2)\<rparr> 2 =
       Inr (idx, labs) \<and> length idx = length labs \<and> distinct idx)"
proof -
  let ?pseudo = "\<lparr>distances = [1 / 10, 1 / 5, 4 / 5, 9 / 10], threshold = 1 / 2, shape = (2, 2)\<rparr>"
  have h: "is_argsort stable_argsort \<and> (0::real) < 1 / 2 \<and> (1 / 2 :: real) \<le> 1"
    using is_argsort_stable_argsort by simp
  have k: "(1::int) \<le> 2 \<and> length (distances ?pseudo) = fst (shape ?pseudo) * snd (shape ?pseudo)"
    by simp
  show ?thesis
    using selection_result_invariant [of stable_argsort "1 / 2" ?pseudo 2 ?pseudo] h k by blast
qed

end
